theory Spec2Isabelle
  imports Main "HOL-Library.AList" "HOL-Library.Sublist"
begin

chapter \<open>A shallow embedding of the scheduler, the keep-alive cache, the tree builder,
  component resolution, the optimizer and the HTML tokenizer\<close>

text \<open>
  The first part of the theory holds the model: every definition is a translation of a
  function of the JavaScript source, named after it. The second part holds the proofs,
  one section for each part of the model.
\<close>

section \<open>JavaScript values\<close>

text \<open>
  The values that the modelled functions inspect. Functions and objects are compared by
  identity in the source (\<open>===\<close>, \<open>indexOf\<close>), so each is a reference number.
  \<open>isDef\<close> is the utility of the same name (\<open>v !== undefined && v !== null\<close>);
  \<open>truthy\<close> is JavaScript's conversion to boolean, which \<open>!tag\<close> and \<open>a || b\<close> use.
\<close>

datatype jsval = Undefined | Null | Bool bool | Num int | Str string | Func nat | Obj nat

definition isDef :: "jsval \<Rightarrow> bool" where
  "isDef v = (v \<noteq> Undefined \<and> v \<noteq> Null)"

fun truthy :: "jsval \<Rightarrow> bool" where
  "truthy Undefined = False"
| "truthy Null = False"
| "truthy (Bool b) = b"
| "truthy (Num n) = (n \<noteq> 0)"
| "truthy (Str s) = (s \<noteq> [])"
| "truthy (Func f) = True"
| "truthy (Obj r) = True"

fun isPrimitive :: "jsval \<Rightarrow> bool" where
  "isPrimitive (Str s) = True"
| "isPrimitive (Num n) = True"
| "isPrimitive (Bool b) = True"
| "isPrimitive v = False"

text \<open>Reading a property of \<open>undefined\<close> or \<open>null\<close> raises a \<open>TypeError\<close>.\<close>

datatype js_error = TypeError

text \<open>
  A plain object with string keys is an association list in the order in which the keys
  were created; \<open>AList.update\<close> overwrites a key in place and adds a new key at the end,
  as assignment to a property does.
\<close>

type_synonym 'a js_object = "(string \<times> 'a) list"

text \<open>
  The conversion of a value to a string, as in a template literal, in \<open>String(v)\<close> and
  when a value is used as a property name. Numbers are integers here and print in
  decimal. The text of a function and the result of a \<open>toString\<close> method of an object
  are not modelled: \<open>[object Object]\<close>, the result for a plain object, stands for the
  second, and the word \<open>function\<close> for the first.
\<close>

fun dec :: "nat \<Rightarrow> string" where
  "dec n = (if n < 10 then [char_of (48 + n)] else dec (n div 10) @ [char_of (48 + n mod 10)])"

declare dec.simps [simp del]

fun ToString :: "jsval \<Rightarrow> string" where
  "ToString Undefined = ''undefined''"
| "ToString Null = ''null''"
| "ToString (Bool b) = (if b then ''true'' else ''false'')"
| "ToString (Num n) = (if n < 0 then ''-'' @ dec (nat (- n)) else dec (nat n))"
| "ToString (Str s) = s"
| "ToString (Func f) = ''function''"
| "ToString (Obj r) = ''[object Object]''"

section \<open>Template optimizer: the static-root pass (compiler/optimizer.js)\<close>

text \<open>
  The AST nodes of the compiler carry a numeric \<open>type\<close>: 1 for an element, 2 for an
  expression (interpolated text), 3 for plain text. Of an element the second pass reads
  \<open>static\<close>, \<open>once\<close>, \<open>for\<close>, \<open>children\<close> and \<open>ifConditions\<close>, and writes
  \<open>staticInFor\<close> and \<open>staticRoot\<close>. A flag that JavaScript leaves \<open>undefined\<close> is
  \<open>None\<close> where the pass writes it and \<open>False\<close> where it is only tested for truth.

  \<open>ifConditions[0].block\<close> is the element itself; the loops of the optimizer start at
  index 1. The third argument of \<open>ASTElement\<close> holds the entries from index 1 on (the
  \<open>v-else-if\<close> and \<open>v-else\<close> branches, which the parser keeps out of \<open>children\<close>),
  and is \<open>None\<close> when the element has no \<open>ifConditions\<close>.
\<close>

record el_info =
  el_tag :: string
  el_static :: bool
  el_once :: bool
  el_for :: "string option"
  el_staticInFor :: "bool option"
  el_staticRoot :: "bool option"

datatype ast_node =
    ASTElement el_info "ast_node list" "(string option \<times> ast_node) list option"
  | ASTExpression string
  | ASTText string

fun node_type :: "ast_node \<Rightarrow> nat" where
  "node_type (ASTElement e cs ifs) = 1"
| "node_type (ASTExpression s) = 2"
| "node_type (ASTText s) = 3"

text \<open>\<open>!!node.for\<close>: the loop source is a string when present; the empty string is falsy.\<close>

definition truthy_str :: "string option \<Rightarrow> bool" where
  "truthy_str v = (case v of Some s \<Rightarrow> s \<noteq> [] | None \<Rightarrow> False)"

text \<open>
  \<open>markStaticRoots (node, isInFor)\<close> mutates the tree in place; the model returns the
  updated tree. The early \<open>return\<close> after \<open>node.staticRoot = true\<close> is the first branch.
\<close>

fun markStaticRoots :: "ast_node \<Rightarrow> bool \<Rightarrow> ast_node" where
  "markStaticRoots (ASTElement e cs ifs) isInFor =
     (let e1 = (if el_static e \<or> el_once e then e\<lparr>el_staticInFor := Some isInFor\<rparr> else e) in
      if el_static e1 \<and> cs \<noteq> [] \<and> \<not> (length cs = 1 \<and> node_type (cs ! 0) = 3)
      then ASTElement (e1\<lparr>el_staticRoot := Some True\<rparr>) cs ifs
      else ASTElement (e1\<lparr>el_staticRoot := Some False\<rparr>)
             (map (\<lambda>c. markStaticRoots c (isInFor \<or> truthy_str (el_for e))) cs)
             (map_option (map (\<lambda>p. (fst p, markStaticRoots (snd p) isInFor))) ifs))"
| "markStaticRoots n isInFor = n"

text \<open>
  The test of the claim, in its own words: the element is static, has at least one child,
  and its children are not exactly one static text node (a node of type 3).
\<close>

definition only_static_text :: "ast_node list \<Rightarrow> bool" where
  "only_static_text cs = (case cs of [ASTText t] \<Rightarrow> True | _ \<Rightarrow> False)"

definition qualifies_as_root :: "el_info \<Rightarrow> ast_node list \<Rightarrow> bool" where
  "qualifies_as_root e cs = (el_static e \<and> 1 \<le> length cs \<and> \<not> only_static_text cs)"

text \<open>Readers of the resulting node.\<close>

fun branch_blocks :: "(string option \<times> ast_node) list option \<Rightarrow> ast_node list" where
  "branch_blocks None = []"
| "branch_blocks (Some bs) = map snd bs"

fun root_flag :: "ast_node \<Rightarrow> bool option" where
  "root_flag (ASTElement e cs ifs) = el_staticRoot e"
| "root_flag n = None"

fun node_children :: "ast_node \<Rightarrow> ast_node list" where
  "node_children (ASTElement e cs ifs) = cs"
| "node_children n = []"

fun node_branches :: "ast_node \<Rightarrow> ast_node list" where
  "node_branches (ASTElement e cs ifs) = branch_blocks ifs"
| "node_branches n = []"

text \<open>
  A tree is \<open>unmarked\<close> when no element of it has a \<open>staticRoot\<close> yet (the AST as the
  parser and the first pass leave it). \<open>roots_marked\<close> describes the tree after the pass:
  an element that passes the test is flagged \<open>true\<close> and nothing below it was touched;
  an element that fails it is flagged \<open>false\<close> and its children and branches were visited.
\<close>

fun unmarked :: "ast_node \<Rightarrow> bool" where
  "unmarked (ASTElement e cs ifs) =
     (el_staticRoot e = None \<and> list_all unmarked cs \<and>
      (case ifs of None \<Rightarrow> True | Some bs \<Rightarrow> list_all (\<lambda>p. unmarked (snd p)) bs))"
| "unmarked n = True"

fun roots_marked :: "ast_node \<Rightarrow> bool" where
  "roots_marked (ASTElement e cs ifs) =
     (if qualifies_as_root e cs
      then el_staticRoot e = Some True \<and> list_all unmarked cs \<and>
           (case ifs of None \<Rightarrow> True | Some bs \<Rightarrow> list_all (\<lambda>p. unmarked (snd p)) bs)
      else el_staticRoot e = Some False \<and> list_all roots_marked cs \<and>
           (case ifs of None \<Rightarrow> True | Some bs \<Rightarrow> list_all (\<lambda>p. roots_marked (snd p)) bs))"
| "roots_marked n = True"

text \<open>An element with the given tag and \<open>static\<close> flag, as the first pass leaves it.\<close>

definition mk_el :: "string \<Rightarrow> bool \<Rightarrow> el_info" where
  "mk_el t s = \<lparr>el_tag = t, el_static = s, el_once = False, el_for = None,
               el_staticInFor = None, el_staticRoot = None\<rparr>"


section \<open>Node data and component v-model (core/vdom/create-component.js)\<close>

text \<open>
  \<open>VNodeData\<close>, with the fields that the modelled functions read or write. \<open>d_ob\<close>
  says whether \<open>data.__ob__\<close> is defined (the object is observed). An event listener is a
  function or an array of functions.
\<close>

datatype listener = Handler nat | Handlers "nat list"

record model_binding =
  m_value :: jsval
  m_callback :: nat

record vnode_data =
  d_ob :: bool
  d_is :: jsval
  d_key :: jsval
  d_tag :: "string option"
  d_pre :: bool
  d_attrs :: "jsval js_object option"
  d_on :: "listener js_object option"
  d_nativeOn :: "listener js_object option"
  d_model :: "model_binding option"
  d_scopedSlots :: "nat js_object option"

definition empty_data :: vnode_data where
  "empty_data = \<lparr>d_ob = False, d_is = Undefined, d_key = Undefined, d_tag = None, d_pre = False,
     d_attrs = None, d_on = None, d_nativeOn = None, d_model = None, d_scopedSlots = None\<rparr>"

text \<open>\<open>options.model\<close> of the component constructor.\<close>

record model_options =
  mo_prop :: "string option"
  mo_event :: "string option"

text \<open>\<open>(options.model && options.model.prop) || 'value'\<close>: an empty string is falsy.\<close>

definition or_default :: "string option \<Rightarrow> string \<Rightarrow> string" where
  "or_default v d = (case v of Some s \<Rightarrow> if s \<noteq> [] then s else d | None \<Rightarrow> d)"

text \<open>
  \<open>transformModel (options, data)\<close>. It reads \<open>data.model.value\<close> without a test, which
  raises when \<open>data.model\<close> is missing. \<open>[callback].concat(existing)\<close> puts the
  callback first, before the function or the functions that were there.
\<close>

definition transformModel :: "model_options option \<Rightarrow> vnode_data \<Rightarrow> js_error + vnode_data" where
  "transformModel options_model data =
     (case d_model data of
        None \<Rightarrow> Inl TypeError
      | Some model \<Rightarrow>
         (let prop = or_default (Option.bind options_model mo_prop) ''value'';
              event = or_default (Option.bind options_model mo_event) ''input'';
              attrs = AList.update prop (m_value model)
                        (case d_attrs data of Some a \<Rightarrow> a | None \<Rightarrow> []);
              on = (case d_on data of Some h \<Rightarrow> h | None \<Rightarrow> []);
              existing = map_of on event;
              callback = m_callback model;
              on' = (case existing of
                       Some (Handlers fs) \<Rightarrow>
                         if callback \<notin> set fs then AList.update event (Handlers (callback # fs)) on
                         else on
                     | Some (Handler f) \<Rightarrow>
                         if f \<noteq> callback then AList.update event (Handlers [callback, f]) on
                         else on
                     | None \<Rightarrow> AList.update event (Handler callback) on)
          in Inr (data\<lparr>d_attrs := Some attrs, d_on := Some on'\<rparr>)))"

text \<open>
  The step of \<open>createComponent\<close> that deals with v-model:
  \<open>if (isDef(data.model)) { transformModel(Ctor.options, data) }\<close>.
\<close>

definition createComponent_model :: "model_options option \<Rightarrow> vnode_data \<Rightarrow> js_error + vnode_data" where
  "createComponent_model options_model data =
     (if d_model data \<noteq> None then transformModel options_model data else Inr data)"

text \<open>Readers: the attribute and the listener stored under a name, the functions of a listener.\<close>

fun listener_fns :: "listener \<Rightarrow> nat list" where
  "listener_fns (Handler f) = [f]"
| "listener_fns (Handlers fs) = fs"

definition data_attr :: "vnode_data \<Rightarrow> string \<Rightarrow> jsval option" where
  "data_attr d k = (case d_attrs d of Some a \<Rightarrow> map_of a k | None \<Rightarrow> None)"

definition data_on :: "vnode_data \<Rightarrow> string \<Rightarrow> listener option" where
  "data_on d k = (case d_on d of Some h \<Rightarrow> map_of h k | None \<Rightarrow> None)"

definition model_prop :: "model_options option \<Rightarrow> string" where
  "model_prop om = or_default (Option.bind om mo_prop) ''value''"

definition model_event :: "model_options option \<Rightarrow> string" where
  "model_event om = or_default (Option.bind om mo_event) ''input''"

text \<open>A node with v-model and one listener for \<open>input\<close> already.\<close>

definition model_sample :: vnode_data where
  "model_sample = empty_data\<lparr>d_model := Some \<lparr>m_value = Str ''x'', m_callback = 7\<rparr>,
                              d_on := Some [(''input'', Handler 3)]\<rparr>"

section \<open>Tree builder (the file that holds \<open>_createElement\<close>)\<close>

text \<open>
  Modelled from the spec: the class \<open>VNode\<close> and \<open>createEmptyVNode\<close> (vnode.js) are not
  under src/. A node has a tag (absent for text and comments), data, children, text, a
  namespace, the owning context, a key, and for component placeholders the component
  options and the instance; the constructor copies \<open>data.key\<close> into \<open>key\<close>. The empty
  placeholder node has no tag, no data, no children, the empty text, and is flagged as a
  comment. The \<open>children\<close> argument of \<open>_createElement\<close> has type \<open>any\<close>: a \<open>child\<close>
  is a node, a primitive or other plain value, or an array of these.
\<close>

record component_options =
  co_cid :: nat
  co_name :: "string option"
  co_tag :: "string option"

datatype vnode = VNode
   (vn_tag: "string option") (vn_data: "vnode_data option") (vn_children: child)
   (vn_text: "string option") (vn_ns: "string option") (vn_context: "nat option")
   (vn_key: jsval) (vn_componentOptions: "component_options option")
   (vn_componentInstance: "nat option") (vn_isComment: bool)
and child = ChildNode vnode | ChildVal jsval | ChildArr "child list"

definition new_VNode :: "string option \<Rightarrow> vnode_data option \<Rightarrow> child \<Rightarrow> nat option \<Rightarrow> vnode" where
  "new_VNode tag data children context =
     VNode tag data children None None context
       (case data of Some d \<Rightarrow> d_key d | None \<Rightarrow> Undefined) None None False"

definition createEmptyVNode :: vnode where
  "createEmptyVNode =
     VNode None None (ChildVal Undefined) (Some []) None None Undefined None None True"

text \<open>
  \<open>applyNS (vnode, ns, force)\<close>. The loop reads \<open>child.tag\<close> of every entry of
  \<open>vnode.children\<close>: that raises on an entry that is \<open>undefined\<close> or \<open>null\<close>, and is
  \<open>undefined\<close> on a primitive or an array, which the loop then skips.
\<close>

fun applyNS :: "vnode \<Rightarrow> string option \<Rightarrow> bool \<Rightarrow> js_error + vnode"
and applyNS_children :: "child list \<Rightarrow> string option \<Rightarrow> bool \<Rightarrow> js_error + child list" where
  "applyNS (VNode tag data cs text old_ns ctx key co ci ic) ns force =
     (let ns1 = (if tag = Some ''foreignObject'' then None else ns);
          force1 = (tag = Some ''foreignObject'' \<or> force)
      in case cs of
           ChildArr kids \<Rightarrow>
             (case applyNS_children kids ns1 force1 of
                Inl e \<Rightarrow> Inl e
              | Inr kids' \<Rightarrow> Inr (VNode tag data (ChildArr kids') text ns ctx key co ci ic))
         | _ \<Rightarrow> Inr (VNode tag data cs text ns ctx key co ci ic))"
| "applyNS_children [] ns force = Inr []"
| "applyNS_children (ChildNode v # cs) ns force =
     (if vn_tag v \<noteq> None \<and> (vn_ns v = None \<or> (force \<and> vn_tag v \<noteq> Some ''svg''))
      then (case applyNS v ns force of
              Inl e \<Rightarrow> Inl e
            | Inr v' \<Rightarrow> (case applyNS_children cs ns force of
                           Inl e \<Rightarrow> Inl e
                         | Inr cs' \<Rightarrow> Inr (ChildNode v' # cs')))
      else (case applyNS_children cs ns force of
              Inl e \<Rightarrow> Inl e
            | Inr cs' \<Rightarrow> Inr (ChildNode v # cs')))"
| "applyNS_children (ChildVal x # cs) ns force =
     (if x = Undefined \<or> x = Null then Inl TypeError
      else (case applyNS_children cs ns force of
              Inl e \<Rightarrow> Inl e
            | Inr cs' \<Rightarrow> Inr (ChildVal x # cs')))"
| "applyNS_children (ChildArr a # cs) ns force =
     (case applyNS_children cs ns force of
        Inl e \<Rightarrow> Inl e
      | Inr cs' \<Rightarrow> Inr (ChildArr a # cs'))"

text \<open>
  What \<open>_createElement\<close> and \<open>createComponent\<close> use and src/ does not hold is a
  parameter: the build flags (\<open>process.env.NODE_ENV\<close>, \<open>__WEEX__\<close>), the platform
  configuration, \<open>resolveAsset\<close>, the two normalizers and the test
  \<open>'@binding' in data.key\<close>. \<open>JSON.stringify(data)\<close> is a parameter as well: its result
  rests on all that can be reached from the data object, of which the model holds a few
  fields; it returns the text, or throws a \<open>TypeError\<close> (on an object that refers to
  itself, for one). Of \<open>createComponent\<close>, the part that follows the test of the
  constructor rests on the async, functional and hook helpers that are not under src/:
  \<open>component_node\<close> stands for it and gives what it returns (nothing, a node, or an
  array of nodes) with the warnings that it passes to \<open>warn\<close>. \<open>baseCtor_extend\<close> is
  \<open>baseCtor.extend\<close>, from an options object to a constructor.
\<close>

datatype built = BuiltUndefined | BuiltNode vnode | BuiltArray "vnode list"

record ctx =
  ctx_id :: nat
  ctx_vnode_ns :: "string option"

record ce_env =
  production :: bool
  weex :: bool
  getTagNamespace :: "string \<Rightarrow> string option"
  isReservedTag :: "string \<Rightarrow> bool"
  parsePlatformTagName :: "string \<Rightarrow> string"
  resolveAsset :: "ctx \<Rightarrow> string \<Rightarrow> jsval"
  baseCtor_extend :: "nat \<Rightarrow> nat"
  component_node ::
    "nat \<Rightarrow> vnode_data option \<Rightarrow> ctx \<Rightarrow> child \<Rightarrow> string option \<Rightarrow> built \<times> string list"
  normalizeChildren :: "child \<Rightarrow> child"
  simpleNormalizeChildren :: "child \<Rightarrow> child"
  stringify :: "vnode_data \<Rightarrow> js_error + string"
  has_binding :: "jsval \<Rightarrow> bool"

definition SIMPLE_NORMALIZE :: "nat" where "SIMPLE_NORMALIZE = 1"
definition ALWAYS_NORMALIZE :: "nat" where "ALWAYS_NORMALIZE = 2"

text \<open>
  \<open>Array.isArray(children) && typeof children[0] === 'function'\<close>: the function that
  is the first entry of the array, if there is one.
\<close>

fun first_function :: "child \<Rightarrow> nat option" where
  "first_function (ChildArr (ChildVal (Func f) # cs)) = Some f"
| "first_function c = None"

text \<open>
  The body of \<open>_createElement\<close>, cut at its comments into the steps below. The source
  assigns to \<open>data\<close> and \<open>children\<close>; each step returns the new values.

  Single function child: \<open>data = data || {}\<close>, \<open>data.scopedSlots = { default: children[0] }\<close>,
  \<open>children.length = 0\<close>.
\<close>

definition scoped_slot_step :: "vnode_data option \<Rightarrow> child \<Rightarrow> vnode_data option \<times> child" where
  "scoped_slot_step data children =
     (case first_function children of
        Some f \<Rightarrow>
          (Some ((case data of Some d \<Rightarrow> d | None \<Rightarrow> empty_data)
                   \<lparr>d_scopedSlots := Some [(''default'', f)]\<rparr>),
           ChildArr [])
      | None \<Rightarrow> (data, children))"

definition normalize_step :: "ce_env \<Rightarrow> nat option \<Rightarrow> child \<Rightarrow> child" where
  "normalize_step env normalizationType children =
     (if normalizationType = Some ALWAYS_NORMALIZE then normalizeChildren env children
      else if normalizationType = Some SIMPLE_NORMALIZE then simpleNormalizeChildren env children
      else children)"

text \<open>
  The message of the warning about observed data, from the text that
  \<open>JSON.stringify(data)\<close> returned.
\<close>

definition observed_warning :: "string \<Rightarrow> string" where
  "observed_warning json =
     ''Avoid using observed data object as vnode data: '' @ json @
     [CHR 0x0A] @ ''Always create fresh vnode data objects in each render!''"

definition key_warning :: string where
  "key_warning = ''Avoid using non-primitive value as key, use string/number value instead.''"

definition native_warning :: "string \<Rightarrow> string" where
  "native_warning tag =
     ''The .native modifier for v-on is only valid on components but it was used on <''
       @ tag @ ''>.''"

text \<open>\<open>if (isDef(data) && isDef(data.is)) { tag = data.is }\<close>\<close>

definition effective_tag :: "jsval \<Rightarrow> vnode_data option \<Rightarrow> jsval" where
  "effective_tag tag data =
     (case data of Some d \<Rightarrow> if isDef (d_is d) then d_is d else tag | None \<Rightarrow> tag)"

definition key_check :: "ce_env \<Rightarrow> vnode_data option \<Rightarrow> string list" where
  "key_check env data =
     (case data of
        Some d \<Rightarrow>
          if \<not> production env \<and> isDef (d_key d) \<and> \<not> isPrimitive (d_key d)
             \<and> (\<not> weex env \<or> \<not> has_binding env (d_key d))
          then [key_warning] else []
      | None \<Rightarrow> [])"

text \<open>
  \<open>createComponent (Ctor, data, context, children, tag)\<close>, up to the test of the
  constructor: nothing is returned for \<open>undefined\<close> and \<open>null\<close>; an object becomes a
  constructor by \<open>baseCtor.extend\<close>; what is not a function then is rejected, with a
  warning in a development build.
\<close>

definition invalid_component_warning :: "jsval \<Rightarrow> string" where
  "invalid_component_warning Ctor = ''Invalid Component definition: '' @ ToString Ctor"

definition createComponent ::
  "ce_env \<Rightarrow> jsval \<Rightarrow> vnode_data option \<Rightarrow> ctx \<Rightarrow> child \<Rightarrow> string option
     \<Rightarrow> built \<times> string list" where
  "createComponent env Ctor data context children tag =
     (if \<not> isDef Ctor then (BuiltUndefined, [])
      else case Ctor of
             Obj r \<Rightarrow> component_node env (baseCtor_extend env r) data context children tag
           | Func f \<Rightarrow> component_node env f data context children tag
           | _ \<Rightarrow> (BuiltUndefined,
                   if \<not> production env then [invalid_component_warning Ctor] else []))"

text \<open>
  The branch on \<open>typeof tag === 'string'\<close>: the node or what \<open>createComponent\<close> returns,
  the namespace \<open>ns\<close>, and the warnings.
\<close>

definition build_step ::
  "ce_env \<Rightarrow> ctx \<Rightarrow> jsval \<Rightarrow> vnode_data option \<Rightarrow> child \<Rightarrow> built \<times> string option \<times> string list" where
  "build_step env context tag data children =
     (case tag of
        Str t \<Rightarrow>
          (let ns = (case ctx_vnode_ns context of
                       Some n \<Rightarrow> if n \<noteq> [] then Some n else getTagNamespace env t
                     | None \<Rightarrow> getTagNamespace env t)
           in if isReservedTag env t
              then (BuiltNode (new_VNode (Some (parsePlatformTagName env t)) data children
                                 (Some (ctx_id context))),
                    ns,
                    (case data of
                       Some d \<Rightarrow> if \<not> production env \<and> d_nativeOn d \<noteq> None
                                     \<and> d_tag d \<noteq> Some ''component''
                                  then [native_warning t] else []
                     | None \<Rightarrow> []))
              else if (case data of Some d \<Rightarrow> \<not> d_pre d | None \<Rightarrow> True)
                      \<and> isDef (resolveAsset env context t)
              then (case createComponent env (resolveAsset env context t) data context children
                           (Some t) of
                      (vnode, w) \<Rightarrow> (vnode, ns, w))
              else (BuiltNode (new_VNode (Some t) data children (Some (ctx_id context))), ns, []))
      | _ \<Rightarrow> (case createComponent env tag data context children None of
                (vnode, w) \<Rightarrow> (vnode, None, w)))"

text \<open>
  The end of the function: an array is returned as it is, a node gets its namespace, and
  nothing becomes the empty placeholder. \<open>registerDeepBindings\<close> only reads
  \<open>data.style\<close> and \<open>data.class\<close> (to register dependencies) and changes no value.
\<close>

definition finish_step :: "built \<Rightarrow> string option \<Rightarrow> js_error + built" where
  "finish_step vnode ns =
     (case vnode of
        BuiltArray vs \<Rightarrow> Inr (BuiltArray vs)
      | BuiltNode v \<Rightarrow>
          (if ns \<noteq> None
           then (case applyNS v ns False of Inl e \<Rightarrow> Inl e | Inr v' \<Rightarrow> Inr (BuiltNode v'))
           else Inr (BuiltNode v))
      | BuiltUndefined \<Rightarrow> Inr (BuiltNode createEmptyVNode))"

text \<open>
  \<open>_createElement (context, tag, data, children, normalizationType)\<close> (an Isabelle name
  cannot start with an underscore). The result is the returned value and the warnings
  passed to \<open>warn\<close>, in order. In a development build the message for observed data is
  put together, with \<open>JSON.stringify(data)\<close>, before \<open>warn\<close> is called and before the
  placeholder is returned: an exception of \<open>JSON.stringify\<close> leaves the function.
\<close>

definition createElement_impl ::
  "ce_env \<Rightarrow> ctx \<Rightarrow> jsval \<Rightarrow> vnode_data option \<Rightarrow> child \<Rightarrow> nat option
     \<Rightarrow> js_error + (built \<times> string list)" where
  "createElement_impl env context tag0 data0 children0 normalizationType =
     (case (case data0 of Some d \<Rightarrow> if d_ob d then Some d else None | None \<Rightarrow> None) of
        Some d \<Rightarrow>
          if \<not> production env
          then (case stringify env d of
                  Inl e \<Rightarrow> Inl e
                | Inr json \<Rightarrow> Inr (BuiltNode createEmptyVNode, [observed_warning json]))
          else Inr (BuiltNode createEmptyVNode, [])
      | None \<Rightarrow>
         (let tag = effective_tag tag0 data0
          in if \<not> truthy tag then Inr (BuiltNode createEmptyVNode, [])
             else
              (let w1 = key_check env data0;
                   (data, children1) = scoped_slot_step data0 children0;
                   children = normalize_step env normalizationType children1;
                   (vnode, ns, w2) = build_step env context tag data children
               in case finish_step vnode ns of
                    Inl e \<Rightarrow> Inl e
                  | Inr r \<Rightarrow> Inr (r, w1 @ w2))))"

text \<open>
  A development build for the web: a few reserved tags, the identity for
  \<open>parsePlatformTagName\<close> (its default), no registered components.
\<close>

definition web_env :: ce_env where
  "web_env = \<lparr>production = False, weex = False,
     getTagNamespace = (\<lambda>t. if t = ''svg'' then Some ''svg'' else None),
     isReservedTag = (\<lambda>t. t \<in> set [''div'', ''span'', ''p'', ''svg'']),
     parsePlatformTagName = (\<lambda>t. t),
     resolveAsset = (\<lambda>c t. Undefined),
     baseCtor_extend = (\<lambda>r. r),
     component_node = (\<lambda>c d x ch t. (BuiltUndefined, [])),
     normalizeChildren = (\<lambda>c. c),
     simpleNormalizeChildren = (\<lambda>c. c),
     stringify = (\<lambda>d. Inr ''{}''),
     has_binding = (\<lambda>k. False)\<rparr>"

definition ctx0 :: ctx where "ctx0 = \<lparr>ctx_id = 0, ctx_vnode_ns = None\<rparr>"

text \<open>
  The same build for a data object that refers to itself, on which \<open>JSON.stringify\<close>
  throws, and a production build.
\<close>

definition cyclic_env :: ce_env where
  "cyclic_env = web_env\<lparr>stringify := (\<lambda>d. Inl TypeError)\<rparr>"

definition production_env :: ce_env where
  "production_env = web_env\<lparr>production := True\<rparr>"
section \<open>Keep-alive cache (core/components/keep-alive.js)\<close>

text \<open>
  A cache entry holds the component name, the tag of the cached node and the component
  instance. The cache object maps a property name to an entry or to \<open>null\<close>: pruning
  assigns \<open>null\<close> and leaves the property in the object. A key that is used as a
  property name is converted to a string (\<open>cache[1]\<close> and \<open>cache['1']\<close> are the same
  property). \<open>keys\<close> is the array of keys in order of use, least recently used first; it
  holds the keys as they were pushed, a number as a number.

  The node that keep-alive wraps, as far as this file reads it: tag, key, component
  options, and the component instance that the node holds when the hooks \<open>mounted\<close> and
  \<open>updated\<close> run (the \<open>init\<close> hook sets it during patch).
\<close>

record cache_entry =
  ce_name :: "string option"
  ce_tag :: "string option"
  ce_componentInstance :: nat

type_synonym cache_map = "cache_entry option js_object"

record ka_vnode =
  kv_tag :: "string option"
  kv_key :: jsval
  kv_componentOptions :: "component_options option"
  kv_componentInstance :: nat
  kv_keepAlive :: bool

datatype pattern = PString string | PRegExp "string \<Rightarrow> bool" | PArray "string list"

text \<open>
  The instance: \<open>cache\<close>, \<open>keys\<close>, the pending pair \<open>vnodeToCache\<close> and \<open>keyToCache\<close>,
  the props \<open>include\<close>, \<open>exclude\<close> and \<open>max\<close> (a number here; \<open>0\<close> and \<open>undefined\<close> are
  falsy), and \<open>_vnode\<close>, the node on screen. \<open>ka_destroyed\<close> logs the instances on which
  \<open>$destroy\<close> was called, in order.
\<close>

record keep_alive =
  ka_cache :: cache_map
  ka_keys :: "jsval list"
  ka_vnodeToCache :: "ka_vnode option"
  ka_keyToCache :: jsval
  ka_include :: "pattern option"
  ka_exclude :: "pattern option"
  ka_max :: "nat option"
  ka_vnode :: "ka_vnode option"
  ka_destroyed :: "nat list"

text \<open>
  The value of the property with a given name when it is an entry (\<open>undefined\<close> and
  \<open>null\<close> are both falsy); \<open>cache[key]\<close> is \<open>cache_get cache (ToString key)\<close>.
\<close>

definition cache_get :: "cache_map \<Rightarrow> string \<Rightarrow> cache_entry option" where
  "cache_get cache name = (case map_of cache name of Some (Some e) \<Rightarrow> Some e | _ \<Rightarrow> None)"

text \<open>
  The order in which \<open>for (const key in cache)\<close> visits the properties of the cache
  (an object without prototype): first the names that are array indices, which are the
  decimal numerals of the numbers below \<open>2^32 - 1\<close>, in ascending order of the number,
  then the other names in the order in which the properties were created. The loop
  variable is always a string.
\<close>

definition decimal_value :: "string \<Rightarrow> nat" where
  "decimal_value s = foldl (\<lambda>a c. 10 * a + (of_char c - 48)) 0 s"

definition array_index :: "string \<Rightarrow> nat option" where
  "array_index s =
     (if s \<noteq> [] \<and> dec (decimal_value s) = s \<and> int (decimal_value s) < 4294967295
      then Some (decimal_value s) else None)"

definition for_in :: "'a js_object \<Rightarrow> string list" where
  "for_in obj =
     sort_key (\<lambda>name. case array_index name of Some n \<Rightarrow> n | None \<Rightarrow> 0)
       (filter (\<lambda>name. array_index name \<noteq> None) (map fst obj)) @
     filter (\<lambda>name. array_index name = None) (map fst obj)"

text \<open>\<open>opts && (opts.Ctor.options.name || opts.tag)\<close>\<close>

definition getComponentName :: "component_options option \<Rightarrow> string option" where
  "getComponentName opts =
     (case opts of
        None \<Rightarrow> None
      | Some co \<Rightarrow> (case co_name co of
                     Some n \<Rightarrow> if n \<noteq> [] then Some n else co_tag co
                   | None \<Rightarrow> co_tag co))"

text \<open>\<open>pattern.split(',')\<close>\<close>

fun split_comma :: "string \<Rightarrow> string \<Rightarrow> string list" where
  "split_comma acc [] = [rev acc]"
| "split_comma acc (c # cs) =
     (if c = CHR '','' then rev acc # split_comma [] cs else split_comma (c # acc) cs)"

fun matches :: "pattern \<Rightarrow> string \<Rightarrow> bool" where
  "matches (PArray xs) name = (name \<in> set xs)"
| "matches (PString s) name = (name \<in> set (split_comma [] s))"
| "matches (PRegExp test) name = test name"

text \<open>
  \<open>matches\<close> on the new value of \<open>include\<close> or \<open>exclude\<close> that a watcher receives,
  which may be \<open>undefined\<close>: the last line of \<open>matches\<close> returns \<open>false\<close> then.
\<close>

definition matches_value :: "pattern option \<Rightarrow> string \<Rightarrow> bool" where
  "matches_value val name = (case val of Some p \<Rightarrow> matches p name | None \<Rightarrow> False)"

text \<open>
  Modelled from the spec: \<open>remove\<close> of shared/util is not under src/. It takes the item
  out of the array at its first position, if it is there (the key then moves to the most
  recently used end when it is pushed again). The position is found with \<open>indexOf\<close>,
  which compares with \<open>===\<close>, so a number is not found by the string that names it:
  \<open>remove1\<close> on values.

  \<open>pruneCacheEntry (cache, key, keys, current)\<close> returns the new cache, the new keys and
  the instances destroyed (none or one). The key is a string when it comes from a
  \<open>for\<close>-\<open>in\<close> loop, and the key as it was pushed when it comes from \<open>keys\<close>.
\<close>

definition pruneCacheEntry ::
  "cache_map \<Rightarrow> jsval \<Rightarrow> jsval list \<Rightarrow> ka_vnode option \<Rightarrow> cache_map \<times> jsval list \<times> nat list" where
  "pruneCacheEntry cache key keys current =
     (let entry = cache_get cache (ToString key);
          destroyed =
            (case entry of
               Some e \<Rightarrow>
                 (case current of
                    None \<Rightarrow> [ce_componentInstance e]
                  | Some cur \<Rightarrow> if ce_tag e \<noteq> kv_tag cur then [ce_componentInstance e] else [])
             | None \<Rightarrow> [])
      in (AList.update (ToString key) None cache, remove1 key keys, destroyed))"

text \<open>
  The loop \<open>for (const key in cache)\<close> of \<open>pruneCache\<close>, over the names still to
  visit.
\<close>

fun pruneCache_loop ::
  "string list \<Rightarrow> (string \<Rightarrow> bool) \<Rightarrow> ka_vnode option
     \<Rightarrow> cache_map \<times> jsval list \<times> nat list \<Rightarrow> cache_map \<times> jsval list \<times> nat list" where
  "pruneCache_loop [] keep current st = st"
| "pruneCache_loop (key # rest) keep current (cache, keys, log) =
     (case cache_get cache key of
        Some entry \<Rightarrow>
          (case ce_name entry of
             Some name \<Rightarrow>
               if name \<noteq> [] \<and> \<not> keep name
               then (case pruneCacheEntry cache (Str key) keys current of
                       (cache', keys', d) \<Rightarrow>
                         pruneCache_loop rest keep current (cache', keys', log @ d))
               else pruneCache_loop rest keep current (cache, keys, log)
           | None \<Rightarrow> pruneCache_loop rest keep current (cache, keys, log))
      | None \<Rightarrow> pruneCache_loop rest keep current (cache, keys, log))"

definition pruneCache :: "keep_alive \<Rightarrow> (string \<Rightarrow> bool) \<Rightarrow> keep_alive" where
  "pruneCache this keep =
     (case pruneCache_loop (for_in (ka_cache this)) keep (ka_vnode this)
             (ka_cache this, ka_keys this, ka_destroyed this) of
        (cache', keys', log') \<Rightarrow>
          this\<lparr>ka_cache := cache', ka_keys := keys', ka_destroyed := log'\<rparr>)"

text \<open>The method \<open>cacheVNode\<close>.\<close>

definition cacheVNode :: "keep_alive \<Rightarrow> keep_alive" where
  "cacheVNode this =
     (case ka_vnodeToCache this of
        None \<Rightarrow> this
      | Some vnodeToCache \<Rightarrow>
          (let keyToCache = ka_keyToCache this;
               cache = AList.update (ToString keyToCache)
                         (Some \<lparr>ce_name = getComponentName (kv_componentOptions vnodeToCache),
                                ce_tag = kv_tag vnodeToCache,
                                ce_componentInstance = kv_componentInstance vnodeToCache\<rparr>)
                         (ka_cache this);
               keys = ka_keys this @ [keyToCache];
               (cache', keys', d) =
                  (if (case ka_max this of Some m \<Rightarrow> m \<noteq> 0 \<and> length keys > m | None \<Rightarrow> False)
                   then pruneCacheEntry cache (keys ! 0) keys (ka_vnode this)
                   else (cache, keys, []))
           in this\<lparr>ka_cache := cache', ka_keys := keys', ka_destroyed := ka_destroyed this @ d,
                    ka_vnodeToCache := None\<rparr>))"

text \<open>The hooks \<open>created\<close> and \<open>destroyed\<close>.\<close>

definition created :: "keep_alive \<Rightarrow> keep_alive" where
  "created this = this\<lparr>ka_cache := [], ka_keys := []\<rparr>"

fun destroyed_loop ::
  "string list \<Rightarrow> cache_map \<times> jsval list \<times> nat list \<Rightarrow> cache_map \<times> jsval list \<times> nat list" where
  "destroyed_loop [] st = st"
| "destroyed_loop (key # rest) (cache, keys, log) =
     (case pruneCacheEntry cache (Str key) keys None of
        (cache', keys', d) \<Rightarrow> destroyed_loop rest (cache', keys', log @ d))"

definition destroyed :: "keep_alive \<Rightarrow> keep_alive" where
  "destroyed this =
     (case destroyed_loop (for_in (ka_cache this))
             (ka_cache this, ka_keys this, ka_destroyed this) of
        (cache', keys', log') \<Rightarrow>
          this\<lparr>ka_cache := cache', ka_keys := keys', ka_destroyed := log'\<rparr>)"

text \<open>
  The cache key of a node: \<open>vnode.key\<close> itself when it is not \<open>null\<close> or \<open>undefined\<close>,
  else the string made of the constructor id, followed by \<open>::\<close> and the tag when there
  is a tag.
\<close>

definition cache_key :: "ka_vnode \<Rightarrow> component_options \<Rightarrow> jsval" where
  "cache_key vnode componentOptions =
     (if isDef (kv_key vnode) then kv_key vnode
      else Str (dec (co_cid componentOptions) @
                (case co_tag componentOptions of
                   Some t \<Rightarrow> if t \<noteq> [] then ''::'' @ t else []
                 | None \<Rightarrow> [])))"

definition pattern_truthy :: "pattern option \<Rightarrow> bool" where
  "pattern_truthy p = (case p of None \<Rightarrow> False | Some (PString s) \<Rightarrow> s \<noteq> [] | Some _ \<Rightarrow> True)"

text \<open>
  Whether \<open>render\<close> returns the node without caching: not included, or excluded.
\<close>

definition bypass :: "keep_alive \<Rightarrow> string option \<Rightarrow> bool" where
  "bypass this name =
     ((pattern_truthy (ka_include this) \<and>
        (\<not> truthy_str name \<or> \<not> matches (the (ka_include this)) (the name))) \<or>
      (pattern_truthy (ka_exclude this) \<and> truthy_str name \<and>
        matches (the (ka_exclude this)) (the name)))"

text \<open>
  \<open>render\<close>. Its argument is the first component child of the default slot (found by
  \<open>getFirstComponentChild\<close>, not under src/) and the first node of the slot, returned when
  there is no component child. The result is the new instance state and the node returned.
\<close>

definition render :: "keep_alive \<Rightarrow> ka_vnode option \<Rightarrow> ka_vnode option \<Rightarrow> keep_alive \<times> ka_vnode option" where
  "render this first_child slot0 =
     (case first_child of
        None \<Rightarrow> (this, slot0)
      | Some vnode \<Rightarrow>
         (case kv_componentOptions vnode of
            None \<Rightarrow> (this, Some vnode)
          | Some componentOptions \<Rightarrow>
             (let name = getComponentName (Some componentOptions)
              in if bypass this name then (this, Some vnode)
                 else
                  (let key = cache_key vnode componentOptions
                   in case cache_get (ka_cache this) (ToString key) of
                        Some entry \<Rightarrow>
                          (this\<lparr>ka_keys := remove1 key (ka_keys this) @ [key]\<rparr>,
                           Some (vnode\<lparr>kv_componentInstance := ce_componentInstance entry,
                                        kv_keepAlive := True\<rparr>))
                      | None \<Rightarrow>
                          (this\<lparr>ka_vnodeToCache := Some vnode, ka_keyToCache := key\<rparr>,
                           Some (vnode\<lparr>kv_keepAlive := True\<rparr>))))))"

text \<open>
  What happens to an instance after \<open>created\<close>: a render, the patch that follows it and
  makes the rendered node the node on screen, the hooks \<open>mounted\<close> and \<open>updated\<close> (both
  call \<open>cacheVNode\<close>), the two watchers on \<open>include\<close> and \<open>exclude\<close>, and a new value
  of the prop \<open>max\<close>, on which there is no watcher.
\<close>

datatype ka_event =
    Render "ka_vnode option" "ka_vnode option"
  | Patch "ka_vnode option"
  | Updated
  | IncludeChanged "pattern option"
  | ExcludeChanged "pattern option"
  | MaxChanged "nat option"

fun ka_step :: "keep_alive \<Rightarrow> ka_event \<Rightarrow> keep_alive" where
  "ka_step this (Render first_child slot0) = fst (render this first_child slot0)"
| "ka_step this (Patch v) = this\<lparr>ka_vnode := v\<rparr>"
| "ka_step this Updated = cacheVNode this"
| "ka_step this (IncludeChanged val) =
     pruneCache (this\<lparr>ka_include := val\<rparr>) (\<lambda>name. matches_value val name)"
| "ka_step this (ExcludeChanged val) =
     pruneCache (this\<lparr>ka_exclude := val\<rparr>) (\<lambda>name. \<not> matches_value val name)"
| "ka_step this (MaxChanged val) = this\<lparr>ka_max := val\<rparr>"

definition ka_run :: "keep_alive \<Rightarrow> ka_event list \<Rightarrow> keep_alive" where
  "ka_run this events = foldl ka_step (created this) events"

text \<open>The entries that the cache holds: the keys mapped to an entry, with the entry.\<close>

definition live_entries :: "cache_map \<Rightarrow> (string \<times> cache_entry) list" where
  "live_entries cache = concat (map (\<lambda>(k, v). case v of Some e \<Rightarrow> [(k, e)] | None \<Rightarrow> []) cache)"

definition new_keep_alive :: "nat option \<Rightarrow> keep_alive" where
  "new_keep_alive limit =
     \<lparr>ka_cache = [], ka_keys = [], ka_vnodeToCache = None, ka_keyToCache = Undefined,
      ka_include = None, ka_exclude = None, ka_max = limit, ka_vnode = None, ka_destroyed = []\<rparr>"

definition comp_vnode :: "nat \<Rightarrow> string \<Rightarrow> nat \<Rightarrow> ka_vnode" where
  "comp_vnode cid name inst =
     \<lparr>kv_tag = Some (''vue-component-'' @ dec cid @ ''-'' @ name), kv_key = Undefined,
      kv_componentOptions = Some \<lparr>co_cid = cid, co_name = Some name, co_tag = Some name\<rparr>,
      kv_componentInstance = inst, kv_keepAlive = False\<rparr>"

text \<open>
  Two components are rendered, patched and cached in turn, then a third is rendered and
  waits for the hook \<open>updated\<close>, with the second on screen.
\<close>

definition ka_sample :: "ka_event list" where
  "ka_sample =
     [Render (Some (comp_vnode 1 ''a'' 10)) None, Patch (Some (comp_vnode 1 ''a'' 10)), Updated,
      Render (Some (comp_vnode 2 ''b'' 20)) None, Patch (Some (comp_vnode 2 ''b'' 20)), Updated,
      Render (Some (comp_vnode 3 ''c'' 30)) None]"

text \<open>
  A component with the key \<open>key\<close>, and four events that render, patch and cache it.
\<close>

definition keyed_vnode :: "jsval \<Rightarrow> nat \<Rightarrow> ka_vnode" where
  "keyed_vnode key inst = (comp_vnode 1 ''a'' inst)\<lparr>kv_key := key\<rparr>"

definition show_keyed :: "jsval \<Rightarrow> nat \<Rightarrow> ka_event list" where
  "show_keyed key inst =
     [Render (Some (keyed_vnode key inst)) None, Patch (Some (keyed_vnode key inst)), Updated]"

text \<open>
  Three runs. In the first, two components are cached under \<open>max = 2\<close>, \<open>max\<close> is set
  to \<open>1\<close>, and a third component is rendered, patched and cached. In the second, under
  \<open>max = 1\<close>, the keys are the number \<open>2\<close>, then the string \<open>'2'\<close> (a hit: both name the
  property \<open>2\<close>), then the numbers \<open>3\<close> and \<open>4\<close>. In the third, two components with the
  keys \<open>2\<close> and \<open>1\<close> are cached.
\<close>

definition lowered_sample :: "ka_event list" where
  "lowered_sample =
     take 6 ka_sample @ [MaxChanged (Some 1)] @
     [Render (Some (comp_vnode 3 ''c'' 30)) None, Patch (Some (comp_vnode 3 ''c'' 30)), Updated]"

definition mixed_sample :: "ka_event list" where
  "mixed_sample =
     show_keyed (Num 2) 10 @ [Render (Some (keyed_vnode (Str ''2'') 11)) None] @
     show_keyed (Num 3) 30 @ show_keyed (Num 4) 40"

definition numeric_sample :: "ka_event list" where
  "numeric_sample = show_keyed (Num 2) 20 @ show_keyed (Num 1) 10"

subsection \<open>Notions used to state the properties of the cache\<close>

text \<open>
  A render whose node has a string as its key, or no key (the key made from the
  constructor id is a string).
\<close>

fun is_Str :: "jsval \<Rightarrow> bool" where
  "is_Str (Str s) = True"
| "is_Str v = False"

fun string_keyed :: "ka_event \<Rightarrow> bool" where
  "string_keyed (Render (Some v) slot0) = (\<not> isDef (kv_key v) \<or> is_Str (kv_key v))"
| "string_keyed e = True"

text \<open>
  The number of entries that a value of \<open>max\<close> allows: none for \<open>undefined\<close> and for
  \<open>0\<close>, which are falsy in \<open>this.max && \<dots>\<close>. \<open>max_kept cur events\<close> says that no
  event of the list lowers the limit, starting from the value \<open>cur\<close> of \<open>max\<close>.
\<close>

definition limit_of :: "nat option \<Rightarrow> nat option" where
  "limit_of mx = (case mx of Some m \<Rightarrow> if m = 0 then None else Some m | None \<Rightarrow> None)"

definition not_lowered :: "nat option \<Rightarrow> nat option \<Rightarrow> bool" where
  "not_lowered cur new =
     (case limit_of new of
        None \<Rightarrow> True
      | Some m' \<Rightarrow> (case limit_of cur of None \<Rightarrow> False | Some m \<Rightarrow> m \<le> m'))"

fun max_kept :: "nat option \<Rightarrow> ka_event list \<Rightarrow> bool" where
  "max_kept cur [] = True"
| "max_kept cur (MaxChanged new # events) = (not_lowered cur new \<and> max_kept new events)"
| "max_kept cur (e # events) = max_kept cur events"

text \<open>
  The invariant that ties the cache to the key list, for keys that are strings: the object
  has each name once, the key list has no duplicates, and the keys in the list are the
  names mapped to an entry. For the instance it adds that a pending key is a string that
  is not in the key list yet and that a positive \<open>max\<close> bounds the number of keys.
\<close>

definition ck_inv :: "cache_map \<Rightarrow> jsval list \<Rightarrow> bool" where
  "ck_inv cache keys \<longleftrightarrow>
     distinct (map fst cache) \<and> distinct keys \<and> list_all is_Str keys \<and>
     set keys = Str ` {k. cache_get cache k \<noteq> None}"

definition ka_inv :: "keep_alive \<Rightarrow> bool" where
  "ka_inv s \<longleftrightarrow>
     ck_inv (ka_cache s) (ka_keys s) \<and>
     (ka_vnodeToCache s \<noteq> None \<longrightarrow>
        is_Str (ka_keyToCache s) \<and> ka_keyToCache s \<notin> set (ka_keys s)) \<and>
     (\<forall>m. ka_max s = Some m \<and> 0 < m \<longrightarrow> length (ka_keys s) \<le> m)"
section \<open>Scheduler (the file that holds \<open>queueWatcher\<close> and \<open>flushSchedulerQueue\<close>)\<close>

text \<open>
  A watcher, as far as the scheduler reads it: its \<open>id\<close>, the flag \<open>user\<close>, its
  \<open>expression\<close> and the component \<open>vm\<close> that owns it. The class \<open>Watcher\<close> is not under
  src/: what \<open>watcher.before()\<close> and \<open>watcher.run()\<close> do is a parameter. User code cannot
  reach the variables of the scheduler module; it acts on them only by calling the
  exported functions \<open>queueWatcher\<close> and \<open>queueActivatedComponent\<close>. So a hook or a run
  is a function from the state of the user program (any type \<open>'u\<close>) to the calls it
  makes, in order, and the new state of the user program.
\<close>

record watcher =
  w_id :: nat
  w_user :: bool
  w_expression :: string
  w_vm :: nat

datatype sched_call = QueueWatcher watcher | QueueActivated nat

record 'u program =
  before :: "watcher \<Rightarrow> ('u \<Rightarrow> sched_call list \<times> 'u) option"
  run :: "watcher \<Rightarrow> 'u \<Rightarrow> sched_call list \<times> 'u"

text \<open>
  The build flag \<open>process.env.NODE_ENV === 'production'\<close> and \<open>config.async\<close>.
\<close>

record sched_config =
  sc_production :: bool
  sc_async :: bool

definition MAX_UPDATE_COUNT :: nat where
  "MAX_UPDATE_COUNT = 100"

text \<open>
  The variables of the module: \<open>queue\<close>, \<open>activatedChildren\<close>, \<open>has\<close>, \<open>circular\<close>,
  \<open>waiting\<close>, \<open>flushing\<close> and \<open>index\<close>. An entry of \<open>has\<close> is \<open>true\<close>, or \<open>null\<close> or
  absent; the code tests it with \<open>== null\<close> only, so both of the latter are \<open>None\<close>.
  Three more fields record what the module does to the outside: \<open>ran\<close> lists the ids of
  the watchers whose \<open>run\<close> was called, in order; \<open>warnings\<close> lists the messages passed to
  \<open>warn\<close> with the component given; \<open>ticks\<close> counts the calls
  \<open>nextTick(flushSchedulerQueue)\<close>.
\<close>

record sched =
  queue :: "watcher list"
  activatedChildren :: "nat list"
  has :: "nat \<Rightarrow> bool option"
  circular :: "nat \<Rightarrow> nat option"
  waiting :: bool
  flushing :: bool
  index :: nat
  ran :: "nat list"
  warnings :: "(string \<times> nat) list"
  ticks :: nat

definition resetSchedulerState :: "sched_config \<Rightarrow> sched \<Rightarrow> sched" where
  "resetSchedulerState cfg s =
     s\<lparr>index := 0, queue := [], activatedChildren := [], has := (\<lambda>k. None),
       circular := (if \<not> sc_production cfg then (\<lambda>k. None) else circular s),
       waiting := False, flushing := False\<rparr>"

text \<open>The state of the module when it is loaded.\<close>

definition initial_sched :: sched where
  "initial_sched =
     \<lparr>queue = [], activatedChildren = [], has = (\<lambda>k. None), circular = (\<lambda>k. None),
      waiting = False, flushing = False, index = 0, ran = [], warnings = [], ticks = 0\<rparr>"

text \<open>
  The loop of \<open>queueWatcher\<close> that looks for the place of a watcher in a queue that is
  being flushed: \<open>let i = queue.length - 1; while (i > index && queue[i].id > watcher.id) i--\<close>.
\<close>

function splice_index :: "watcher list \<Rightarrow> nat \<Rightarrow> watcher \<Rightarrow> int \<Rightarrow> int" where
  "splice_index q idx w i =
     (if i > int idx \<and> w_id (q ! nat i) > w_id w then splice_index q idx w (i - 1) else i)"
  by pat_completeness auto
termination
  by (relation "measure (\<lambda>(q, idx, w, i). nat i)") auto

declare splice_index.simps [simp del]

text \<open>What \<open>queueWatcher\<close> asks for at its end: nothing, a flush now, or a flush on the next tick.\<close>

datatype flush_request = NoFlush | FlushNow | FlushNextTick

text \<open>
  \<open>queueWatcher (watcher)\<close>, up to the call of \<open>flushSchedulerQueue\<close> or \<open>nextTick\<close>,
  which is returned as a request. \<open>queue.splice(i + 1, 0, watcher)\<close> inserts the watcher
  at position \<open>i + 1\<close>.
\<close>

definition queueWatcher :: "sched_config \<Rightarrow> sched \<Rightarrow> watcher \<Rightarrow> sched \<times> flush_request" where
  "queueWatcher cfg s watcher =
     (let id = w_id watcher
      in if has s id = None
         then
           (let s1 = s\<lparr>has := (has s)(id := Some True)\<rparr>;
                s2 = (if \<not> flushing s1 then s1\<lparr>queue := queue s1 @ [watcher]\<rparr>
                      else
                       (let i = splice_index (queue s1) (index s1) watcher
                                  (int (length (queue s1)) - 1)
                        in s1\<lparr>queue := take (nat (i + 1)) (queue s1) @ [watcher]
                                         @ drop (nat (i + 1)) (queue s1)\<rparr>))
            in if \<not> waiting s2
               then if \<not> sc_production cfg \<and> \<not> sc_async cfg
                    then (s2\<lparr>waiting := True\<rparr>, FlushNow)
                    else (s2\<lparr>waiting := True, ticks := ticks s2 + 1\<rparr>, FlushNextTick)
               else (s2, NoFlush))
         else (s, NoFlush))"

definition queueActivatedComponent :: "sched \<Rightarrow> nat \<Rightarrow> sched" where
  "queueActivatedComponent s vm = s\<lparr>activatedChildren := activatedChildren s @ [vm]\<rparr>"

text \<open>
  The calls that user code makes while the queue is flushed. \<open>flushSchedulerQueue\<close> is
  called by \<open>queueWatcher\<close> alone, after \<open>waiting = true\<close>, and \<open>waiting\<close> stays true
  until the flush resets the state; a call of \<open>queueWatcher\<close> from a hook or a run
  therefore asks for no flush, and its request is dropped here.
\<close>

fun apply_calls :: "sched_config \<Rightarrow> sched \<Rightarrow> sched_call list \<Rightarrow> sched" where
  "apply_calls cfg s [] = s"
| "apply_calls cfg s (QueueWatcher w # cs) = apply_calls cfg (fst (queueWatcher cfg s w)) cs"
| "apply_calls cfg s (QueueActivated vm # cs) = apply_calls cfg (queueActivatedComponent s vm) cs"

text \<open>
  The first part of the body of the loop: \<open>watcher.before()\<close> when the watcher has that
  hook, \<open>has[id] = null\<close>, \<open>watcher.run()\<close>.
\<close>

definition run_watcher ::
  "'u program \<Rightarrow> sched_config \<Rightarrow> sched \<times> 'u \<Rightarrow> sched \<times> 'u" where
  "run_watcher prog cfg su =
     (case su of (s, u) \<Rightarrow>
       (let watcher = queue s ! index s;
            (s1, u1) = (case before prog watcher of
                          Some hook \<Rightarrow> (case hook u of (calls, u') \<Rightarrow> (apply_calls cfg s calls, u'))
                        | None \<Rightarrow> (s, u));
            id = w_id watcher;
            s2 = s1\<lparr>has := (has s1)(id := None)\<rparr>;
            (calls, u2) = run prog watcher u1
        in (apply_calls cfg (s2\<lparr>ran := ran s2 @ [id]\<rparr>) calls, u2)))"

definition runaway_message :: "watcher \<Rightarrow> string" where
  "runaway_message watcher =
     ''You may have an infinite update loop '' @
     (if w_user watcher
      then ''in watcher with expression '' @ [CHR 0x22] @ w_expression watcher @ [CHR 0x22]
      else ''in a component render function.'')"

text \<open>
  One turn of \<open>for (index = 0; index < queue.length; index++)\<close>: the test, the body, the
  check for circular updates in a development build, and the increment. \<open>Stop\<close> is the
  exit of the loop, by the test or by \<open>break\<close>.
\<close>

datatype 'a turn = Next 'a | Stop 'a

definition flush_turn ::
  "'u program \<Rightarrow> sched_config \<Rightarrow> sched \<times> 'u \<Rightarrow> (sched \<times> 'u) turn" where
  "flush_turn prog cfg su =
     (if index (fst su) < length (queue (fst su))
      then
        (let id = w_id (queue (fst su) ! index (fst su));
             watcher = queue (fst su) ! index (fst su);
             (s3, u2) = run_watcher prog cfg su
         in if \<not> sc_production cfg \<and> has s3 id \<noteq> None
            then
              (let c = (case circular s3 id of Some n \<Rightarrow> n | None \<Rightarrow> 0) + 1;
                   s4 = s3\<lparr>circular := (circular s3)(id := Some c)\<rparr>
               in if c > MAX_UPDATE_COUNT
                  then Stop (s4\<lparr>warnings := warnings s4 @ [(runaway_message watcher, w_vm watcher)]\<rparr>,
                             u2)
                  else Next (s4\<lparr>index := index s4 + 1\<rparr>, u2))
            else Next (s3\<lparr>index := index s3 + 1\<rparr>, u2))
      else Stop su)"

text \<open>
  The loop, with fuel: the number of turns it may take. A run can enqueue watchers
  without end, so the loop need not finish; when the fuel runs out the result is
  \<open>OutOfFuel\<close> with the state reached, and \<open>Done\<close> is the state at the exit of the loop.
\<close>

datatype 'a outcome = Done 'a | OutOfFuel 'a

fun outcome_state :: "'a outcome \<Rightarrow> 'a" where
  "outcome_state (Done x) = x"
| "outcome_state (OutOfFuel x) = x"

fun flush_loop ::
  "'u program \<Rightarrow> sched_config \<Rightarrow> nat \<Rightarrow> sched \<times> 'u \<Rightarrow> (sched \<times> 'u) outcome" where
  "flush_loop prog cfg 0 su = OutOfFuel su"
| "flush_loop prog cfg (Suc n) su =
     (case flush_turn prog cfg su of
        Stop su' \<Rightarrow> Done su'
      | Next su' \<Rightarrow> flush_loop prog cfg n su')"

text \<open>
  \<open>flushSchedulerQueue\<close>: \<open>flushing = true\<close>, the sort by id (stable, and the ids of a
  queue that is not being flushed are distinct), the loop, the copies of the two queues
  for the hooks \<open>activated\<close> and \<open>updated\<close>, and the reset. The result of a flush that
  finishes is the state after the reset with the two copies; the hooks themselves belong
  to the lifecycle module, which is not under src/. The time stamp and the devtools event
  are left out.
\<close>

definition flush_start :: "sched \<Rightarrow> sched" where
  "flush_start s = s\<lparr>flushing := True, queue := sort_key w_id (queue s), index := 0\<rparr>"

definition flushSchedulerQueue ::
  "'u program \<Rightarrow> sched_config \<Rightarrow> nat \<Rightarrow> sched \<times> 'u
     \<Rightarrow> ((sched \<times> 'u) \<times> nat list \<times> watcher list) outcome" where
  "flushSchedulerQueue prog cfg fuel su =
     (case flush_loop prog cfg fuel (flush_start (fst su), snd su) of
        OutOfFuel (s, u) \<Rightarrow> OutOfFuel ((s, u), activatedChildren s, queue s)
      | Done (s, u) \<Rightarrow> Done ((resetSchedulerState cfg s, u), activatedChildren s, queue s))"

text \<open>Calls of \<open>queueWatcher\<close> one after the other, with no flush in between.\<close>

definition queueWatchers :: "sched_config \<Rightarrow> sched \<Rightarrow> watcher list \<Rightarrow> sched" where
  "queueWatchers cfg s ws = foldl (\<lambda>s w. fst (queueWatcher cfg s w)) s ws"

text \<open>Sample watchers and programs.\<close>

definition mk_watcher :: "nat \<Rightarrow> watcher" where
  "mk_watcher k = \<lparr>w_id = k, w_user = True, w_expression = ''count'', w_vm = 0\<rparr>"

definition quiet_program :: "unit program" where
  "quiet_program = \<lparr>before = (\<lambda>w. None), run = (\<lambda>w u. ([], u))\<rparr>"

text \<open>Every run invalidates the watcher that runs.\<close>

definition self_program :: "unit program" where
  "self_program = \<lparr>before = (\<lambda>w. None), run = (\<lambda>w u. ([QueueWatcher w], u))\<rparr>"

text \<open>The run of watcher 2 invalidates watcher 1; no other run invalidates anything.\<close>

definition back_program :: "unit program" where
  "back_program = \<lparr>before = (\<lambda>w. None),
     run = (\<lambda>w u. (if w_id w = 2 then [QueueWatcher (mk_watcher 1)] else [], u))\<rparr>"

definition dev_config :: sched_config where
  "dev_config = \<lparr>sc_production = False, sc_async = True\<rparr>"

definition prod_config :: sched_config where
  "prod_config = \<lparr>sc_production = True, sc_async = True\<rparr>"

text \<open>
  The states of a flush of \<open>self_program\<close> that starts with watcher 3 alone in the queue:
  at the head of turn \<open>k\<close> the watcher has run \<open>k\<close> times and is pending once more.
  \<open>circ_of k\<close> is the table \<open>circular\<close> of a development build at that point.
\<close>

definition self_state :: "nat \<Rightarrow> (nat \<Rightarrow> nat option) \<Rightarrow> sched" where
  "self_state k circ =
     \<lparr>queue = replicate (Suc k) (mk_watcher 3), activatedChildren = [],
      has = (\<lambda>x. None)(3 := Some True), circular = circ, waiting = True, flushing = True,
      index = k, ran = replicate k 3, warnings = [], ticks = 1\<rparr>"

definition circ_of :: "nat \<Rightarrow> nat \<Rightarrow> nat option" where
  "circ_of k = (if k = 0 then (\<lambda>x. None) else (\<lambda>x. None)(3 := Some k))"

text \<open>
  The state in which that flush ends in a development build: the watcher has run 101
  times, is pending once more, and one warning was given.
\<close>

definition self_stopped :: sched where
  "self_stopped =
     \<lparr>queue = replicate 102 (mk_watcher 3), activatedChildren = [],
      has = (\<lambda>x. None)(3 := Some True), circular = (\<lambda>x. None)(3 := Some 101),
      waiting = True, flushing = True, index = 100, ran = replicate 101 3,
      warnings = [(runaway_message (mk_watcher 3), 0)], ticks = 1\<rparr>"

subsection \<open>Notions used to state the properties of the scheduler\<close>

text \<open>The position \<open>i + 1\<close> at which \<open>queueWatcher\<close> splices, as a natural number.\<close>

definition splice_pos :: "watcher list \<Rightarrow> nat \<Rightarrow> watcher \<Rightarrow> nat" where
  "splice_pos q idx w = nat (splice_index q idx w (int (length q) - 1) + 1)"

text \<open>The watchers that a list of calls passes to \<open>queueWatcher\<close>.\<close>

definition enqueued :: "sched_call list \<Rightarrow> watcher set" where
  "enqueued calls = {w. QueueWatcher w \<in> set calls}"

text \<open>
  The watchers that the hook or the run of a watcher may pass to \<open>queueWatcher\<close>, in any
  state of the user program, and the same for all watchers together.
\<close>

definition calls_of :: "'u program \<Rightarrow> watcher \<Rightarrow> watcher set" where
  "calls_of prog w =
     {c. \<exists>u. QueueWatcher c \<in> set (fst (run prog w u)) \<or>
              (\<exists>hook. before prog w = Some hook \<and> QueueWatcher c \<in> set (fst (hook u)))}"


text \<open>
  Whether the watcher at the index is re-enqueued for itself in its turn: its run, which
  follows \<open>has[id] = null\<close>, passes a watcher with its own id to \<open>queueWatcher\<close>. This
  is read off the calls of the program, not off the tables of the scheduler.
\<close>

definition requeues_itself :: "'u program \<Rightarrow> sched \<times> 'u \<Rightarrow> bool" where
  "requeues_itself prog su =
     (case su of (s, u) \<Rightarrow>
       (let watcher = queue s ! index s;
            u1 = (case before prog watcher of Some hook \<Rightarrow> snd (hook u) | None \<Rightarrow> u)
        in list_ex (\<lambda>c. case c of QueueWatcher w \<Rightarrow> w_id w = w_id watcher
                                | QueueActivated vm \<Rightarrow> False)
             (fst (run prog watcher u1))))"

text \<open>
  The number of turns, among the first \<open>n\<close> turns of the loop from a state, in which the
  watcher with the id \<open>k\<close> ran and was re-enqueued for itself.
\<close>

fun self_requeues :: "'u program \<Rightarrow> sched_config \<Rightarrow> nat \<Rightarrow> sched \<times> 'u \<Rightarrow> nat \<Rightarrow> nat" where
  "self_requeues prog cfg 0 su k = 0"
| "self_requeues prog cfg (Suc n) su k =
     (if index (fst su) < length (queue (fst su))
      then (if w_id (queue (fst su) ! index (fst su)) = k \<and> requeues_itself prog su
            then 1 else 0) +
           (case flush_turn prog cfg su of
              Next su' \<Rightarrow> self_requeues prog cfg n su' k
            | Stop su' \<Rightarrow> 0)
      else 0)"

text \<open>The count that the table \<open>circular\<close> holds for an id: \<open>circular[id] || 0\<close>.\<close>

definition circular_count :: "sched \<Rightarrow> nat \<Rightarrow> nat" where
  "circular_count s k = (case circular s k of Some n \<Rightarrow> n | None \<Rightarrow> 0)"

text \<open>
  The loop was left by the \<open>break\<close> of the check for circular updates: the index stands
  at a watcher whose count in \<open>circular\<close> has just passed the threshold, no other count
  is above the threshold, one warning about that watcher was added, and that watcher
  was the last to run.
\<close>

definition runaway_stop :: "sched \<Rightarrow> sched \<Rightarrow> bool" where
  "runaway_stop s s' \<longleftrightarrow>
     index s' < length (queue s') \<and>
     circular_count s' (w_id (queue s' ! index s')) = Suc MAX_UPDATE_COUNT \<and>
     (\<forall>k. k \<noteq> w_id (queue s' ! index s') \<longrightarrow> circular_count s' k \<le> MAX_UPDATE_COUNT) \<and>
     warnings s' = warnings s @
       [(runaway_message (queue s' ! index s'), w_vm (queue s' ! index s'))] \<and>
     ran s' \<noteq> [] \<and> last (ran s') = w_id (queue s' ! index s')"

text \<open>
  At the head of a turn the queue is being flushed and the watchers from the index on are
  in ascending order of id; \<open>run_sorted\<close> adds that the runs so far are in ascending
  order and that no run so far has an id above that of a watcher still to run.
\<close>

definition head_sorted :: "sched \<Rightarrow> bool" where
  "head_sorted s \<longleftrightarrow> flushing s \<and> sorted (map w_id (drop (index s) (queue s)))"

definition run_sorted :: "sched \<Rightarrow> bool" where
  "run_sorted s \<longleftrightarrow>
     head_sorted s \<and> sorted (ran s) \<and>
     (\<forall>a \<in> set (ran s). \<forall>b \<in> set (drop (index s) (queue s)). a \<le> w_id b)"


text \<open>A queue with the watchers 5, 2 and 7 at the start of its flush.\<close>

definition flushing_sample :: sched where
  "flushing_sample =
     flush_start (queueWatchers dev_config initial_sched [mk_watcher 5, mk_watcher 2, mk_watcher 7])"

section \<open>HTML tokenizer (\<open>compiler/parser/html-parser.js\<close>)\<close>

subsection \<open>Strings\<close>

text \<open>
  A string is a list of code units; the model has the code units below 256. The methods
  of \<open>String\<close> that the tokenizer calls: \<open>s.substring(n)\<close> and \<open>s.slice(n)\<close> with
  \<open>n \<ge> 0\<close> are \<open>drop n s\<close>; \<open>s.substring(a, b)\<close> swaps its arguments when \<open>a > b\<close>;
  \<open>s.indexOf(pat)\<close> is \<open>find_sub pat s\<close> and \<open>s.indexOf(pat, from)\<close> is \<open>indexOf_from\<close>,
  with \<open>None\<close> for \<open>-1\<close>.
\<close>

definition substring :: "nat \<Rightarrow> nat \<Rightarrow> string \<Rightarrow> string" where
  "substring a b s = take (max a b - min a b) (drop (min a b) s)"

fun find_sub :: "string \<Rightarrow> string \<Rightarrow> nat option" where
  "find_sub pat [] = (if pat = [] then Some 0 else None)"
| "find_sub pat (c # cs) =
     (if prefix pat (c # cs) then Some 0 else map_option Suc (find_sub pat cs))"

definition indexOf_from :: "string \<Rightarrow> nat \<Rightarrow> string \<Rightarrow> nat option" where
  "indexOf_from pat from s =
     map_option (\<lambda>k. k + min from (length s)) (find_sub pat (drop from s))"

text \<open>
  \<open>toLowerCase\<close> on code units below 256: the letters \<open>A\<close> to \<open>Z\<close> and the capital
  letters of Latin-1 (192 to 222 without the sign 215) move up by 32. A regular
  expression with the flag \<open>i\<close> compares a letter of the pattern that is in ASCII with
  its two ASCII forms only, which \<open>ascii_upper\<close> expresses.
\<close>

definition lower_unit :: "char \<Rightarrow> char" where
  "lower_unit c =
     (let n = of_char c :: nat in
      if (65 \<le> n \<and> n \<le> 90) \<or> (192 \<le> n \<and> n \<le> 222 \<and> n \<noteq> 215)
      then char_of (n + 32) else c)"

definition toLowerCase :: "string \<Rightarrow> string" where
  "toLowerCase s = map lower_unit s"

definition ascii_upper :: "char \<Rightarrow> char" where
  "ascii_upper c =
     (let n = of_char c :: nat in if 97 \<le> n \<and> n \<le> 122 then char_of (n - 32) else c)"

subsection \<open>Character classes\<close>

text \<open>
  \<open>\s\<close>, \<open>\w\<close>, the first character \<open>[a-zA-Z_]\<close> of an \<open>ncname\<close> and its further
  characters \<open>[\-\.0-9_a-zA-Z\<dots>]\<close>, the characters \<open>[^\s"'<>\/=]\<close> of an attribute name
  and \<open>[^\s"'=<>`]\<close> of an unquoted value. The further characters of an \<open>ncname\<close>
  include the class \<open>unicodeRegExp.source\<close> of \<open>core/util/lang\<close>, which is not under
  src/: membership in it is the parameter \<open>u\<close>.
\<close>

definition is_space :: "char \<Rightarrow> bool" where
  "is_space c = (of_char c \<in> {9, 10, 11, 12, 13, 32, 160 :: nat})"

definition ascii_letter :: "char \<Rightarrow> bool" where
  "ascii_letter c =
     (let n = of_char c :: nat in (65 \<le> n \<and> n \<le> 90) \<or> (97 \<le> n \<and> n \<le> 122))"

definition digit :: "char \<Rightarrow> bool" where
  "digit c = (let n = of_char c :: nat in 48 \<le> n \<and> n \<le> 57)"

definition word_char :: "char \<Rightarrow> bool" where
  "word_char c = (ascii_letter c \<or> digit c \<or> c = CHR ''_'')"

definition ncname_start :: "char \<Rightarrow> bool" where
  "ncname_start c = (ascii_letter c \<or> c = CHR ''_'')"

definition ncname_char :: "(char \<Rightarrow> bool) \<Rightarrow> char \<Rightarrow> bool" where
  "ncname_char u c =
     (c = CHR ''-'' \<or> c = CHR ''.'' \<or> digit c \<or> c = CHR ''_'' \<or> ascii_letter c \<or> u c)"

definition attr_name_char :: "char \<Rightarrow> bool" where
  "attr_name_char c =
     (\<not> is_space c \<and> c \<notin> {CHR 0x22, CHR 0x27, CHR ''<'', CHR ''>'', CHR ''/'', CHR ''=''})"

definition unquoted_char :: "char \<Rightarrow> bool" where
  "unquoted_char c =
     (\<not> is_space c \<and> c \<notin> {CHR 0x22, CHR 0x27, CHR ''='', CHR ''<'', CHR ''>'', CHR 0x60})"

subsection \<open>The regular expressions\<close>

text \<open>
  Each regular expression of the file is a function from the string to the result of
  \<open>match\<close>: \<open>None\<close> for \<open>null\<close>, otherwise the length of the whole match and the groups
  that the code reads. All of them are anchored at the start of the string, apart
  from \<open>reStackedTag\<close>.

  \<open>ncname\<close> is \<open>[a-zA-Z_][\-\.0-9_a-zA-Z\<dots>]*\<close>: one first character and the longest run
  of further ones. \<open>qnameCapture\<close> is \<open>((?:ncname\:)?ncname)\<close>: the prefix with its colon
  is taken when a second \<open>ncname\<close> follows the colon, and given up otherwise (no shorter
  first \<open>ncname\<close> is followed by a colon, since a colon is not a name character).
\<close>

definition ncname :: "(char \<Rightarrow> bool) \<Rightarrow> string \<Rightarrow> nat option" where
  "ncname u s =
     (case s of
        [] \<Rightarrow> None
      | c # cs \<Rightarrow> if ncname_start c then Some (Suc (length (takeWhile (ncname_char u) cs)))
                 else None)"

definition qnameCapture :: "(char \<Rightarrow> bool) \<Rightarrow> string \<Rightarrow> nat option" where
  "qnameCapture u s =
     (case ncname u s of
        None \<Rightarrow> None
      | Some n \<Rightarrow>
          (case drop n s of
             [] \<Rightarrow> Some n
           | c # r \<Rightarrow>
               if c = CHR '':'' then
                 (case ncname u r of None \<Rightarrow> Some n | Some m \<Rightarrow> Some (n + 1 + m))
               else Some n))"

text \<open>
  \<open>startTagOpen\<close> is \<open>^<qname\<close>; the result is the length of the match and the group 1,
  the tag name.
\<close>

definition startTagOpen :: "(char \<Rightarrow> bool) \<Rightarrow> string \<Rightarrow> (nat \<times> string) option" where
  "startTagOpen u s =
     (case s of
        [] \<Rightarrow> None
      | c # r \<Rightarrow>
          if c = CHR ''<'' then
            (case qnameCapture u r of None \<Rightarrow> None | Some n \<Rightarrow> Some (Suc n, take n r))
          else None)"

text \<open>
  \<open>startTagClose\<close> is \<open>^\s*(\/?)>\<close>; the result is the length of the match and the
  group 1, \<open>/\<close> or the empty string.
\<close>

definition startTagClose :: "string \<Rightarrow> (nat \<times> string) option" where
  "startTagClose s =
     (let r = dropWhile is_space s; n = length (takeWhile is_space s) in
      case r of
        [] \<Rightarrow> None
      | c # r1 \<Rightarrow>
          if c = CHR ''>'' then Some (n + 1, [])
          else if c = CHR ''/'' then
            (case r1 of
               [] \<Rightarrow> None
             | d # r2 \<Rightarrow> if d = CHR ''>'' then Some (n + 2, ''/'') else None)
          else None)"

text \<open>
  \<open>endTag\<close> is \<open>^<\/qname[^>]*>\<close>: after the name, everything up to the first \<open>>\<close>.
  Whether a \<open>>\<close> follows does not depend on where the name ends, so the name is the
  longest one.
\<close>

definition endTag :: "(char \<Rightarrow> bool) \<Rightarrow> string \<Rightarrow> (nat \<times> string) option" where
  "endTag u s =
     (if prefix ''</'' s then
        (let r = drop 2 s in
         case qnameCapture u r of
           None \<Rightarrow> None
         | Some n \<Rightarrow>
             (case find_sub ''>'' (drop n r) of
                None \<Rightarrow> None
              | Some k \<Rightarrow> Some (2 + n + k + 1, take n r)))
      else None)"

text \<open>
  \<open>doctype\<close> is \<open>^<!DOCTYPE [^>]+>\<close> with the flag \<open>i\<close>: at least one character stands
  between the blank and the first \<open>>\<close>. \<open>comment\<close> is \<open>^<!\--\<close> and \<open>conditionalComment\<close>
  is \<open>^<!\[\<close>; the code only calls \<open>test\<close> on these two.
\<close>

definition doctype :: "string \<Rightarrow> nat option" where
  "doctype s =
     (if map ascii_upper (take 10 s) = ''<!DOCTYPE '' then
        (case find_sub ''>'' (drop 10 s) of
           None \<Rightarrow> None
         | Some k \<Rightarrow> if 0 < k then Some (10 + k + 1) else None)
      else None)"

definition comment :: "string \<Rightarrow> bool" where
  "comment s = prefix ''<!--'' s"

definition conditionalComment :: "string \<Rightarrow> bool" where
  "conditionalComment s = prefix ''<!['' s"

text \<open>
  The result of a match of \<open>attribute\<close> or \<open>dynamicArgAttribute\<close>: the length of
  \<open>attr[0]\<close>, the groups 1, 3, 4 and 5 (\<open>None\<close> for a group that took no part), and the
  two properties \<open>start\<close> and \<open>end\<close> that \<open>parseStartTag\<close> adds to the array.
\<close>

record attr_match =
  am_length :: nat
  am_name :: string
  am_double :: "string option"
  am_single :: "string option"
  am_unquoted :: "string option"
  am_start :: nat
  am_end :: nat

text \<open>
  The optional tail that both expressions share,
  \<open>(?:\s*(=)\s*(?:"([^"]*)"+|'([^']*)'+|([^\s"'=<>`]+)))?\<close>: its length and the groups
  3, 4 and 5. A value in quotes ends at the first quote of its kind, and the run of
  quotes that follows belongs to the match.
\<close>

definition quoted_value :: "char \<Rightarrow> string \<Rightarrow> (nat \<times> string) option" where
  "quoted_value q s =
     (case find_sub [q] s of
        None \<Rightarrow> None
      | Some k \<Rightarrow> Some (Suc k + length (takeWhile (\<lambda>c. c = q) (drop k s)), take k s))"

definition attr_value ::
  "string \<Rightarrow> (nat \<times> string option \<times> string option \<times> string option) option" where
  "attr_value s =
     (case dropWhile is_space s of
        [] \<Rightarrow> None
      | c # s2 \<Rightarrow>
          if c = CHR ''='' then
            (let s3 = dropWhile is_space s2; gap = length s - length s3 in
             case s3 of
               [] \<Rightarrow> None
             | q # s4 \<Rightarrow>
                 if q = CHR 0x22 then
                   (case quoted_value q s4 of
                      None \<Rightarrow> None
                    | Some (n, v) \<Rightarrow> Some (gap + n, Some v, None, None))
                 else if q = CHR 0x27 then
                   (case quoted_value q s4 of
                      None \<Rightarrow> None
                    | Some (n, v) \<Rightarrow> Some (gap + n, None, Some v, None))
                 else if unquoted_char q then
                   (let v = takeWhile unquoted_char s3 in
                    Some (gap + length v, None, None, Some v))
                 else None)
          else None)"

definition with_value :: "nat \<Rightarrow> string \<Rightarrow> string \<Rightarrow> attr_match" where
  "with_value lead name s =
     (case attr_value s of
        None \<Rightarrow>
          \<lparr>am_length = lead + length name, am_name = name, am_double = None,
           am_single = None, am_unquoted = None, am_start = 0, am_end = 0\<rparr>
      | Some (n, d, sq, uq) \<Rightarrow>
          \<lparr>am_length = lead + length name + n, am_name = name, am_double = d,
           am_single = sq, am_unquoted = uq, am_start = 0, am_end = 0\<rparr>)"

text \<open>\<open>attribute\<close> is \<open>^\s*([^\s"'<>\/=]+)\<close> followed by the optional tail.\<close>

definition attribute :: "string \<Rightarrow> attr_match option" where
  "attribute s =
     (let lead = length (takeWhile is_space s);
          s1 = dropWhile is_space s;
          name = takeWhile attr_name_char s1
      in if name = [] then None
         else Some (with_value lead name (drop (length name) s1)))"

text \<open>
  \<open>dynamicArgAttribute\<close> is \<open>^\s*((?:v-[\w-]+:|@|:|#)\[[^=]+?\][^\s"'<>\/=]*)\<close> followed
  by the optional tail. \<open>dynamic_prefix\<close> is the length of \<open>(?:v-[\w-]+:|@|:|#)\<close>;
  \<open>bracket_arg\<close> is the length of \<open>\[[^=]+?\]\<close>, which ends at the first \<open>]\<close> that is not
  the first character after the bracket and has no \<open>=\<close> before it.
\<close>

definition dynamic_prefix :: "string \<Rightarrow> nat option" where
  "dynamic_prefix s =
     (case s of
        [] \<Rightarrow> None
      | c # r \<Rightarrow>
          if c = CHR ''@'' \<or> c = CHR '':'' \<or> c = CHR ''#'' then Some 1
          else if prefix ''v-'' s then
            (let w = takeWhile (\<lambda>c. word_char c \<or> c = CHR ''-'') (drop 2 s) in
             if w \<noteq> [] \<and> prefix '':'' (drop (2 + length w) s) then Some (2 + length w + 1)
             else None)
          else None)"

definition bracket_arg :: "string \<Rightarrow> nat option" where
  "bracket_arg s =
     (case s of
        [] \<Rightarrow> None
      | c # r \<Rightarrow>
          if c = CHR ''['' then
            (case takeWhile (\<lambda>c. c \<noteq> CHR ''='') r of
               [] \<Rightarrow> None
             | x # xs \<Rightarrow>
                 (case find_sub '']'' xs of None \<Rightarrow> None | Some k \<Rightarrow> Some (k + 3)))
          else None)"

definition dynamicArgAttribute :: "string \<Rightarrow> attr_match option" where
  "dynamicArgAttribute s =
     (let lead = length (takeWhile is_space s);
          s1 = dropWhile is_space s
      in case dynamic_prefix s1 of
           None \<Rightarrow> None
         | Some p \<Rightarrow>
             (case bracket_arg (drop p s1) of
                None \<Rightarrow> None
              | Some b \<Rightarrow>
                  (let n = p + b + length (takeWhile attr_name_char (drop (p + b) s1)) in
                   Some (with_value lead (take n s1) (drop n s1)))))"

text \<open>
  \<open>reStackedTag\<close> is \<open>([\s\S]*?)(</\<close>\<open>stackedTag\<close>\<open>[^>]*>)\<close> with the flag \<open>i\<close>, where
  \<open>stackedTag\<close> is one of \<open>script\<close>, \<open>style\<close> and \<open>textarea\<close>. It is not anchored, but its
  first group takes any character, so a match starts at position 0; the first group
  ends at the first \<open></\<close>\<open>stackedTag\<close>. The result is the length of group 1 and the
  length of group 2.
\<close>

definition reStackedTag :: "string \<Rightarrow> string \<Rightarrow> (nat \<times> nat) option" where
  "reStackedTag stackedTag s =
     (case find_sub (map ascii_upper (''</'' @ stackedTag)) (map ascii_upper s) of
        None \<Rightarrow> None
      | Some p \<Rightarrow>
          (case find_sub ''>'' (drop (p + 2 + length stackedTag) s) of
             None \<Rightarrow> None
           | Some k \<Rightarrow> Some (p, 2 + length stackedTag + k + 1)))"

subsection \<open>The maps and \<open>decodeAttr\<close>\<close>

text \<open>
  \<open>isPlainTextElement\<close> is \<open>makeMap('script,style,textarea', true)\<close> and
  \<open>isIgnoreNewlineTag\<close> is \<open>makeMap('pre,textarea', true)\<close>. Modelled from the spec:
  \<open>makeMap\<close> of \<open>shared/util\<close> is not under src/; with \<open>true\<close> as its second argument
  the function that it returns looks up the lower-cased argument.
\<close>

definition isPlainTextElement :: "string \<Rightarrow> bool" where
  "isPlainTextElement t = (toLowerCase t \<in> {''script'', ''style'', ''textarea''})"

definition isIgnoreNewlineTag :: "string \<Rightarrow> bool" where
  "isIgnoreNewlineTag t = (toLowerCase t \<in> {''pre'', ''textarea''})"

definition shouldIgnoreFirstNewline :: "string \<Rightarrow> string \<Rightarrow> bool" where
  "shouldIgnoreFirstNewline t html =
     (t \<noteq> [] \<and> isIgnoreNewlineTag t \<and> prefix [CHR 0x0A] html)"

text \<open>
  \<open>decodeAttr\<close> replaces every match of \<open>encodedAttr\<close>, or of \<open>encodedAttrWithNewLines\<close>
  when the flag is set, by its entry in \<open>decodingMap\<close>, from left to right.
\<close>

definition decodingMap :: "bool \<Rightarrow> (string \<times> char) list" where
  "decodingMap shouldDecodeNewlines =
     [(''&lt;'', CHR ''<''), (''&gt;'', CHR ''>''), (''&quot;'', CHR 0x22),
      (''&amp;'', CHR ''&''), (''&#39;'', CHR 0x27)] @
     (if shouldDecodeNewlines then [(''&#10;'', CHR 0x0A), (''&#9;'', CHR 0x09)] else [])"

fun decodeAttr :: "string \<Rightarrow> bool \<Rightarrow> string" where
  "decodeAttr [] nl = []"
| "decodeAttr (c # cs) nl =
     (case find (\<lambda>e. prefix (fst e) (c # cs)) (decodingMap nl) of
        None \<Rightarrow> c # decodeAttr cs nl
      | Some e \<Rightarrow> snd e # decodeAttr (drop (length (fst e) - 1) cs) nl)"

text \<open>
  The two replacements \<open>.replace(/<!\--([\s\S]*?)-->/g, '$1')\<close> and
  \<open>.replace(/<!\[CDATA\[([\s\S]*?)]]>/g, '$1')\<close>: every stretch between an opening and
  the next closing mark loses the two marks.
\<close>

fun strip_marks :: "string \<Rightarrow> string \<Rightarrow> string \<Rightarrow> string" where
  "strip_marks opening closing [] = []"
| "strip_marks opening closing (c # cs) =
     (if opening \<noteq> [] \<and> prefix opening (c # cs) then
        (case find_sub closing (drop (length opening) (c # cs)) of
           None \<Rightarrow> c # cs
         | Some j \<Rightarrow>
             take j (drop (length opening) (c # cs)) @
             strip_marks opening closing (drop (length opening - 1 + j + length closing) cs))
      else c # strip_marks opening closing cs)"

subsection \<open>The state of \<open>parseHTML\<close> and its callbacks\<close>

text \<open>
  An attribute as \<open>handleStartTag\<close> passes it on: \<open>name\<close>, \<open>value\<close>, and \<open>start\<close> and \<open>end\<close>
  when the source range is recorded. An entry of \<open>stack\<close>. The calls of the callbacks
  of \<open>options\<close> are the output of the tokenizer: \<open>start(tag, attrs, unary, start, end)\<close>,
  \<open>end(tag, start, end)\<close>, \<open>chars(text, start, end)\<close> or \<open>chars(text)\<close>,
  \<open>comment(text, start, end)\<close> and \<open>warn(msg, range)\<close>, where the range has a \<open>start\<close>
  and may have an \<open>end\<close>.
\<close>

record attr =
  a_name :: string
  a_value :: string
  a_range :: "(nat \<times> nat) option"

record tag_entry =
  t_tag :: string
  t_lowerCasedTag :: string
  t_attrs :: "attr list"
  t_start :: nat
  t_end :: nat

datatype parse_call =
    CallStart string "attr list" bool nat nat
  | CallEnd string nat nat
  | CallChars string "(nat \<times> nat) option"
  | CallComment string nat nat
  | CallWarn string nat "nat option"

text \<open>
  The options that \<open>parseHTML\<close> reads. \<open>o_isUnaryTag\<close> and \<open>o_canBeLeftOpenTag\<close> are
  \<open>options.isUnaryTag || no\<close> and \<open>options.canBeLeftOpenTag || no\<close>. \<open>o_start\<close>, \<open>o_end\<close>,
  \<open>o_chars\<close>, \<open>o_comment\<close> and \<open>o_warn\<close> say whether the callback is supplied; what a
  callback does is outside the tokenizer, which never reads a result of one. The last
  three fields are not options: the build flag \<open>process.env.NODE_ENV === 'production'\<close>,
  \<open>isNonPhrasingTag\<close> of \<open>web/compiler/util\<close>, and the class of \<open>unicodeRegExp\<close>; the
  latter two are imported from files that are not under src/.
\<close>

record parse_options =
  o_expectHTML :: bool
  o_isUnaryTag :: "string \<Rightarrow> bool"
  o_canBeLeftOpenTag :: "string \<Rightarrow> bool"
  o_shouldDecodeNewlines :: bool
  o_shouldDecodeNewlinesForHref :: bool
  o_shouldKeepComment :: bool
  o_outputSourceRange :: bool
  o_start :: bool
  o_end :: bool
  o_chars :: bool
  o_comment :: bool
  o_warn :: bool
  o_production :: bool
  o_isNonPhrasingTag :: "string \<Rightarrow> bool"
  o_unicode :: "char \<Rightarrow> bool"

text \<open>
  The variables of \<open>parseHTML\<close>: \<open>html\<close>, \<open>index\<close>, \<open>stack\<close> (the last element is the top)
  and \<open>lastTag\<close>, which is \<open>undefined\<close> at first, a tag name after a push, and a tag
  name or \<open>0\<close> after \<open>lastTag = pos && stack[pos - 1].tag\<close>; \<open>None\<close> stands for \<open>undefined\<close>
  and for \<open>0\<close>, which the code does not tell apart. \<open>p_calls\<close> lists the calls of the
  callbacks so far.
\<close>

record pstate =
  p_html :: string
  p_index :: nat
  p_stack :: "tag_entry list"
  p_lastTag :: "string option"
  p_calls :: "parse_call list"

definition call :: "parse_call \<Rightarrow> pstate \<Rightarrow> pstate" where
  "call c st = st\<lparr>p_calls := p_calls st @ [c]\<rparr>"

definition advance :: "nat \<Rightarrow> pstate \<Rightarrow> pstate" where
  "advance n st = st\<lparr>p_index := p_index st + n, p_html := drop n (p_html st)\<rparr>"

subsection \<open>\<open>parseEndTag\<close>\<close>

text \<open>
  The first loop of \<open>parseEndTag\<close>: \<open>scan_stack l stack n\<close> looks at the positions
  \<open>n - 1\<close> down to \<open>0\<close> and gives the first one whose \<open>lowerCasedTag\<close> is \<open>l\<close>; \<open>None\<close> is
  \<open>pos = -1\<close>.
\<close>

fun scan_stack :: "string \<Rightarrow> tag_entry list \<Rightarrow> nat \<Rightarrow> nat option" where
  "scan_stack l stack 0 = None"
| "scan_stack l stack (Suc pos) =
     (if t_lowerCasedTag (stack ! pos) = l then Some pos else scan_stack l stack pos)"

text \<open>
  The second loop, from the top of the stack down to \<open>pos\<close>: the calls of \<open>warn\<close> and
  of \<open>end\<close> for one entry, and for all of them.
\<close>

definition close_entry ::
  "parse_options \<Rightarrow> bool \<Rightarrow> nat \<Rightarrow> nat \<Rightarrow> nat \<Rightarrow> tag_entry list \<Rightarrow> nat \<Rightarrow> parse_call list" where
  "close_entry opts named start end pos stack i =
     (if \<not> o_production opts \<and> (pos < i \<or> \<not> named) \<and> o_warn opts
      then [CallWarn (''tag <'' @ t_tag (stack ! i) @ ''> has no matching end tag.'')
              (t_start (stack ! i)) (Some (t_end (stack ! i)))]
      else []) @
     (if o_end opts then [CallEnd (t_tag (stack ! i)) start end] else [])"

definition close_entries ::
  "parse_options \<Rightarrow> bool \<Rightarrow> nat \<Rightarrow> nat \<Rightarrow> nat \<Rightarrow> tag_entry list \<Rightarrow> parse_call list" where
  "close_entries opts named start end pos stack =
     concat (map (close_entry opts named start end pos stack) (rev [pos ..< length stack]))"

text \<open>
  \<open>parseEndTag(tagName, start, end)\<close>. Each argument may be left out; a tag name that
  is left out or empty is falsy.
\<close>

definition parseEndTag ::
  "parse_options \<Rightarrow> string option \<Rightarrow> nat option \<Rightarrow> nat option \<Rightarrow> pstate \<Rightarrow> pstate" where
  "parseEndTag opts tagName start0 end0 st =
     (let start = (case start0 of None \<Rightarrow> p_index st | Some n \<Rightarrow> n);
          end = (case end0 of None \<Rightarrow> p_index st | Some n \<Rightarrow> n);
          named = (tagName \<noteq> None \<and> tagName \<noteq> Some []);
          name = (case tagName of None \<Rightarrow> [] | Some t \<Rightarrow> t);
          lowerCasedTagName = toLowerCase name;
          stack = p_stack st;
          pos = (if named then scan_stack lowerCasedTagName stack (length stack) else Some 0)
      in case pos of
           Some pos \<Rightarrow>
             st\<lparr>p_calls := p_calls st @ close_entries opts named start end pos stack,
                p_stack := take pos stack,
                p_lastTag := (if pos = 0 then None else Some (t_tag (stack ! (pos - 1))))\<rparr>
         | None \<Rightarrow>
             if lowerCasedTagName = ''br'' then
               (if o_start opts then call (CallStart name [] True start end) st else st)
             else if lowerCasedTagName = ''p'' then
               (let st1 = (if o_start opts then call (CallStart name [] False start end) st
                           else st)
                in if o_end opts then call (CallEnd name start end) st1 else st1)
             else st)"

subsection \<open>\<open>parseStartTag\<close> and \<open>handleStartTag\<close>\<close>

text \<open>
  The result of \<open>parseStartTag\<close> when it returns a value: \<open>tagName\<close>, \<open>attrs\<close>, \<open>start\<close>,
  \<open>unarySlash\<close> and \<open>end\<close>.
\<close>

record start_match =
  sm_tagName :: string
  sm_attrs :: "attr_match list"
  sm_start :: nat
  sm_unarySlash :: string
  sm_end :: nat

text \<open>
  The loop of \<open>parseStartTag\<close> that collects the attributes: it ends when
  \<open>startTagClose\<close> matches (\<open>end\<close> is then the match) or when neither attribute
  expression matches. It returns the state, the attributes and \<open>end\<close>. A match of an
  attribute expression has at least the one character of the name, so every turn
  shortens \<open>html\<close>.
\<close>

function parse_attrs ::
  "pstate \<Rightarrow> attr_match list \<Rightarrow> pstate \<times> attr_match list \<times> (nat \<times> string) option" where
  "parse_attrs st attrs =
     (case startTagClose (p_html st) of
        Some e \<Rightarrow> (st, attrs, Some e)
      | None \<Rightarrow>
          (case (case dynamicArgAttribute (p_html st) of
                   None \<Rightarrow> attribute (p_html st)
                 | Some a \<Rightarrow> Some a) of
             None \<Rightarrow> (st, attrs, None)
           | Some a \<Rightarrow>
               (let st1 = advance (am_length a) st in
                parse_attrs st1
                  (attrs @ [a\<lparr>am_start := p_index st, am_end := p_index st1\<rparr>]))))"
  by pat_completeness auto
termination
proof (relation "measure (\<lambda>p. length (p_html (fst p)))")
  show "wf (measure (\<lambda>p. length (p_html (fst p))))"
    by simp
next
  fix st :: pstate and attrs :: "attr_match list" and a st1
  assume a: "(case dynamicArgAttribute (p_html st) of
               None \<Rightarrow> attribute (p_html st) | Some a \<Rightarrow> Some a) = Some a"
    and st1: "st1 = advance (am_length a) st"
  have plain: "0 < am_length b \<and> s \<noteq> []" if "attribute s = Some b" for s b
    using that
    by (auto simp add: attribute_def with_value_def Let_def split: if_splits option.splits)
  have dynamic: "0 < am_length b \<and> s \<noteq> []" if "dynamicArgAttribute s = Some b" for s b
    using that
    by (auto simp add: dynamicArgAttribute_def with_value_def dynamic_prefix_def
        bracket_arg_def Let_def split: if_splits option.splits list.splits)
  from a plain dynamic have "0 < am_length a \<and> p_html st \<noteq> []"
    by (cases "dynamicArgAttribute (p_html st)") auto
  then show "((st1, attrs @ [a\<lparr>am_start := p_index st, am_end := p_index st1\<rparr>]), (st, attrs))
      \<in> measure (\<lambda>p. length (p_html (fst p)))"
    by (simp add: st1 advance_def)
qed

declare parse_attrs.simps [simp del]

text \<open>
  \<open>parseStartTag\<close>. When \<open>startTagOpen\<close> matches but the loop ends without a match of
  \<open>startTagClose\<close>, the function returns \<open>undefined\<close> after it has advanced past the
  tag name and the attributes: the state that is returned shows it.
\<close>

definition parseStartTag :: "parse_options \<Rightarrow> pstate \<Rightarrow> pstate \<times> start_match option" where
  "parseStartTag opts st =
     (case startTagOpen (o_unicode opts) (p_html st) of
        None \<Rightarrow> (st, None)
      | Some (n, tagName) \<Rightarrow>
          (case parse_attrs (advance n st) [] of
             (st1, attrs, None) \<Rightarrow> (st1, None)
           | (st1, attrs, Some (m, slash)) \<Rightarrow>
               (let st2 = advance m st1 in
                (st2, Some \<lparr>sm_tagName = tagName, sm_attrs = attrs, sm_start = p_index st,
                            sm_unarySlash = slash, sm_end = p_index st2\<rparr>))))"

text \<open>
  One attribute of \<open>handleStartTag\<close>: \<open>args[3] || args[4] || args[5] || ''\<close> is the first
  group that is present and not empty. \<open>args[0].match(/^\s*/).length\<close> is the length of
  the array that \<open>match\<close> returns, which is 1.
\<close>

definition first_truthy :: "string option list \<Rightarrow> string" where
  "first_truthy gs =
     (case find (\<lambda>g. g \<noteq> None \<and> g \<noteq> Some []) gs of Some (Some v) \<Rightarrow> v | _ \<Rightarrow> [])"

definition make_attr :: "parse_options \<Rightarrow> string \<Rightarrow> attr_match \<Rightarrow> attr" where
  "make_attr opts tagName args =
     (let val = first_truthy [am_double args, am_single args, am_unquoted args];
          shouldDecodeNewlines =
            (if tagName = ''a'' \<and> am_name args = ''href''
             then o_shouldDecodeNewlinesForHref opts else o_shouldDecodeNewlines opts)
      in \<lparr>a_name = am_name args,
          a_value = decodeAttr val shouldDecodeNewlines,
          a_range = (if \<not> o_production opts \<and> o_outputSourceRange opts
                     then Some (am_start args + 1, am_end args) else None)\<rparr>)"

definition handleStartTag :: "parse_options \<Rightarrow> start_match \<Rightarrow> pstate \<Rightarrow> pstate" where
  "handleStartTag opts m st =
     (let tagName = sm_tagName m;
          unarySlash = sm_unarySlash m;
          st1 = (if o_expectHTML opts then
                   (let sa = (if p_lastTag st = Some ''p'' \<and> o_isNonPhrasingTag opts tagName
                              then parseEndTag opts (p_lastTag st) None None st else st)
                    in if o_canBeLeftOpenTag opts tagName \<and> p_lastTag sa = Some tagName
                       then parseEndTag opts (Some tagName) None None sa else sa)
                 else st);
          unary = (o_isUnaryTag opts tagName \<or> unarySlash \<noteq> []);
          attrs = map (make_attr opts tagName) (sm_attrs m);
          st2 = (if \<not> unary then
                   st1\<lparr>p_stack := p_stack st1 @
                          [\<lparr>t_tag = tagName, t_lowerCasedTag = toLowerCase tagName,
                            t_attrs = attrs, t_start = sm_start m, t_end = sm_end m\<rparr>],
                       p_lastTag := Some tagName\<rparr>
                 else st1)
      in if o_start opts then call (CallStart tagName attrs unary (sm_start m) (sm_end m)) st2
         else st2)"

subsection \<open>One turn of the main loop\<close>

text \<open>
  How a part of the loop body ends: with \<open>continue\<close>, by reaching its end (the
  statements after it follow), or with an exception.
\<close>

datatype 'a flow = Continue 'a | Fall 'a | Throw js_error

text \<open>
  The five cases of \<open>if (textEnd === 0)\<close>. Each of the first four gives \<open>None\<close> when its
  test fails and the next case is tried. In the case of a comment, \<open>options.comment\<close> is
  called without a test that it is there: the call throws when \<open>shouldKeepComment\<close> is
  set and no \<open>comment\<close> was supplied. The call of \<open>console.log\<close> in the case of a
  conditional comment is left out.
\<close>

definition on_comment :: "parse_options \<Rightarrow> pstate \<Rightarrow> pstate flow option" where
  "on_comment opts st =
     (let html = p_html st in
      if comment html then
        (case find_sub ''-->'' html of
           None \<Rightarrow> None
         | Some commentEnd \<Rightarrow>
             if o_shouldKeepComment opts \<and> \<not> o_comment opts then Some (Throw TypeError)
             else
               Some (Continue (advance (commentEnd + 3)
                 (if o_shouldKeepComment opts
                  then call (CallComment (substring 4 commentEnd html) (p_index st)
                               (p_index st + commentEnd + 3)) st
                  else st))))
      else None)"

definition on_conditionalComment :: "pstate \<Rightarrow> pstate flow option" where
  "on_conditionalComment st =
     (if conditionalComment (p_html st) then
        (case find_sub '']>'' (p_html st) of
           None \<Rightarrow> None
         | Some conditionalEnd \<Rightarrow> Some (Continue (advance (conditionalEnd + 2) st)))
      else None)"

definition on_doctype :: "pstate \<Rightarrow> pstate flow option" where
  "on_doctype st =
     (case doctype (p_html st) of
        None \<Rightarrow> None
      | Some n \<Rightarrow> Some (Continue (advance n st)))"

definition on_endTag :: "parse_options \<Rightarrow> pstate \<Rightarrow> pstate flow option" where
  "on_endTag opts st =
     (case endTag (o_unicode opts) (p_html st) of
        None \<Rightarrow> None
      | Some (n, name) \<Rightarrow>
          (let curIndex = p_index st; st1 = advance n st in
           Some (Continue (parseEndTag opts (Some name) (Some curIndex) (Some (p_index st1)) st1))))"

definition on_startTag :: "parse_options \<Rightarrow> pstate \<Rightarrow> pstate flow" where
  "on_startTag opts st =
     (case parseStartTag opts st of
        (st1, None) \<Rightarrow> Fall st1
      | (st1, Some m) \<Rightarrow>
          (let st2 = handleStartTag opts m st1 in
           Continue (if shouldIgnoreFirstNewline (sm_tagName m) (p_html st2)
                     then advance 1 st2 else st2)))"

definition at_tag_open :: "parse_options \<Rightarrow> pstate \<Rightarrow> pstate flow" where
  "at_tag_open opts st =
     (case on_comment opts st of
        Some r \<Rightarrow> r
      | None \<Rightarrow>
          (case on_conditionalComment st of
             Some r \<Rightarrow> r
           | None \<Rightarrow>
               (case on_doctype st of
                  Some r \<Rightarrow> r
                | None \<Rightarrow>
                    (case on_endTag opts st of
                       Some r \<Rightarrow> r
                     | None \<Rightarrow> on_startTag opts st))))"

text \<open>
  The loop that looks for the end of a text: while \<open>rest\<close> starts none of an end tag,
  a start tag, a comment and a conditional comment, \<open>textEnd\<close> moves to the next \<open><\<close>
  after the first character of \<open>rest\<close>, if there is one. The result is the last
  \<open>textEnd\<close>.
\<close>

function text_scan :: "(char \<Rightarrow> bool) \<Rightarrow> string \<Rightarrow> nat \<Rightarrow> nat" where
  "text_scan u html textEnd =
     (let rest = drop textEnd html in
      if endTag u rest = None \<and> startTagOpen u rest = None \<and> \<not> comment rest
         \<and> \<not> conditionalComment rest
      then (case indexOf_from ''<'' 1 rest of
              None \<Rightarrow> textEnd
            | Some next \<Rightarrow> text_scan u html (textEnd + next))
      else textEnd)"
  by pat_completeness auto
termination
proof (relation "measure (\<lambda>p. length (fst (snd p)) - snd (snd p))")
  show "wf (measure (\<lambda>p. length (fst (snd p)) - snd (snd p)))"
    by simp
next
  fix u :: "char \<Rightarrow> bool" and html :: string and textEnd rest n
  assume rest: "rest = drop textEnd html"
    and n: "indexOf_from ''<'' 1 rest = Some n"
  have found: "k < length s" if "find_sub ''<'' s = Some k" for s k
    using that by (induction s arbitrary: k) (auto split: if_splits)
  from n obtain k where "find_sub ''<'' (drop 1 rest) = Some k"
    and k: "n = k + min 1 (length rest)"
    by (auto simp add: indexOf_from_def)
  with found [of "drop 1 rest" k] have "0 < n \<and> n < length rest"
    by auto
  then show "((u, html, textEnd + n), (u, html, textEnd))
      \<in> measure (\<lambda>p. length (fst (snd p)) - snd (snd p))"
    by (auto simp add: rest)
qed

declare text_scan.simps [simp del]

text \<open>
  The statements after \<open>if (textEnd === 0)\<close>: the text up to \<open>textEnd\<close>, or the whole of
  \<open>html\<close> when it holds no \<open><\<close>, is cut off and passed to \<open>chars\<close>. \<open>textEnd\<close> is the
  value of \<open>html.indexOf('<')\<close> from the start of the turn.
\<close>

definition on_text :: "parse_options \<Rightarrow> nat option \<Rightarrow> pstate \<Rightarrow> pstate" where
  "on_text opts textEnd st =
     (let html = p_html st;
          text = (case textEnd of
                    Some n \<Rightarrow> substring 0 (text_scan (o_unicode opts) html n) html
                  | None \<Rightarrow> html);
          st1 = (if text \<noteq> [] then advance (length text) st else st)
      in if o_chars opts \<and> text \<noteq> []
         then call (CallChars text (Some (p_index st1 - length text, p_index st1))) st1
         else st1)"

text \<open>
  The branch for the content of \<open>script\<close>, \<open>style\<close> and \<open>textarea\<close>: \<open>html.replace\<close> with
  \<open>reStackedTag\<close> removes the text and the end tag, and the function passed to it runs
  only when the expression matches.
\<close>

definition on_plaintext :: "parse_options \<Rightarrow> string \<Rightarrow> pstate \<Rightarrow> pstate" where
  "on_plaintext opts lastTag st =
     (let stackedTag = toLowerCase lastTag;
          html = p_html st
      in case reStackedTag stackedTag html of
           None \<Rightarrow> parseEndTag opts (Some stackedTag) (Some (p_index st)) (Some (p_index st)) st
         | Some (n, endTagLength) \<Rightarrow>
             (let text0 = take n html;
                  text1 = (if \<not> isPlainTextElement stackedTag \<and> stackedTag \<noteq> ''noscript''
                           then strip_marks ''<![CDATA['' '']]>'' (strip_marks ''<!--'' ''-->'' text0)
                           else text0);
                  text = (if shouldIgnoreFirstNewline stackedTag text1 then drop 1 text1
                          else text1);
                  st1 = (if o_chars opts then call (CallChars text None) st else st);
                  rest = drop (n + endTagLength) html;
                  st2 = st1\<lparr>p_index := p_index st1 + (length html - length rest),
                            p_html := rest\<rparr>
              in parseEndTag opts (Some stackedTag) (Some (p_index st2 - endTagLength))
                   (Some (p_index st2)) st2))"

text \<open>
  The body of the loop up to the test \<open>html === last\<close>.
\<close>

definition turn :: "parse_options \<Rightarrow> pstate \<Rightarrow> pstate flow" where
  "turn opts st =
     (case (case p_lastTag st of
              None \<Rightarrow> None
            | Some t \<Rightarrow> if t \<noteq> [] \<and> isPlainTextElement t then Some t else None) of
        Some lastTag \<Rightarrow> Fall (on_plaintext opts lastTag st)
      | None \<Rightarrow>
          (let textEnd = find_sub ''<'' (p_html st) in
           case (if textEnd = Some 0 then at_tag_open opts st else Fall st) of
             Fall st1 \<Rightarrow> Fall (on_text opts textEnd st1)
           | r \<Rightarrow> r))"

text \<open>
  The exit \<open>if (html === last)\<close>: the rest of \<open>html\<close> goes to \<open>chars\<close>, and in a
  development build with an empty stack a warning is given.
\<close>

definition no_progress :: "parse_options \<Rightarrow> pstate \<Rightarrow> pstate" where
  "no_progress opts st =
     st\<lparr>p_calls := p_calls st @
          (if o_chars opts then [CallChars (p_html st) None] else []) @
          (if \<not> o_production opts \<and> p_stack st = [] \<and> o_warn opts
           then [CallWarn (''Mal-formatted tag at end of template: '' @ [CHR 0x22] @ p_html st
                            @ [CHR 0x22])
                   (p_index st + length (p_html st)) None]
           else [])\<rparr>"

subsection \<open>The main loop and \<open>parseHTML\<close>\<close>

text \<open>
  \<open>while (html)\<close>. Whether the loop ends is a property to be proved, so the model counts
  the turns: \<open>parse_loop opts fuel st\<close> runs at most \<open>fuel\<close> turns and gives \<open>Unfinished\<close>
  when \<open>html\<close> is not empty after the last of them. \<open>Parsed\<close> is the state at the exit of
  the loop, and \<open>Thrown\<close> an exception that leaves the function.
\<close>

datatype 'a parsed = Parsed 'a | Thrown js_error | Unfinished

fun parse_loop :: "parse_options \<Rightarrow> nat \<Rightarrow> pstate \<Rightarrow> pstate parsed" where
  "parse_loop opts 0 st = (if p_html st = [] then Parsed st else Unfinished)"
| "parse_loop opts (Suc n) st =
     (if p_html st = [] then Parsed st
      else case turn opts st of
             Throw e \<Rightarrow> Thrown e
           | Continue st1 \<Rightarrow> parse_loop opts n st1
           | Fall st1 \<Rightarrow>
               if p_html st1 = p_html st then Parsed (no_progress opts st1)
               else parse_loop opts n st1)"

text \<open>
  \<open>parseHTML(html, options)\<close>: the loop from the first state, then \<open>parseEndTag()\<close> for
  the tags that are still open. The result is the list of the calls of the callbacks.
\<close>

definition first_state :: "string \<Rightarrow> pstate" where
  "first_state html =
     \<lparr>p_html = html, p_index = 0, p_stack = [], p_lastTag = None, p_calls = []\<rparr>"

definition parseHTML :: "parse_options \<Rightarrow> nat \<Rightarrow> string \<Rightarrow> parse_call list parsed" where
  "parseHTML opts fuel html =
     (case parse_loop opts fuel (first_state html) of
        Parsed st \<Rightarrow> Parsed (p_calls (parseEndTag opts None None None st))
      | Thrown e \<Rightarrow> Thrown e
      | Unfinished \<Rightarrow> Unfinished)"

text \<open>
  Options for the samples: a development build in which every callback is supplied,
  comments are kept and source ranges are recorded; the tag tables are small cuts of
  those of the web platform.
\<close>

definition sample_options :: parse_options where
  "sample_options =
     \<lparr>o_expectHTML = True,
      o_isUnaryTag = (\<lambda>t. t \<in> {''br'', ''hr'', ''img'', ''input''}),
      o_canBeLeftOpenTag = (\<lambda>t. t \<in> {''li'', ''p'', ''td''}),
      o_shouldDecodeNewlines = False,
      o_shouldDecodeNewlinesForHref = False,
      o_shouldKeepComment = True,
      o_outputSourceRange = True,
      o_start = True, o_end = True, o_chars = True, o_comment = True, o_warn = True,
      o_production = False,
      o_isNonPhrasingTag = (\<lambda>t. t \<in> {''div'', ''ul'', ''h1'', ''p''}),
      o_unicode = (\<lambda>c. False)\<rparr>"
chapter \<open>Proofs\<close>

section \<open>Proofs: static roots\<close>

lemma only_static_text_iff:
  "only_static_text cs \<longleftrightarrow> (length cs = 1 \<and> node_type (cs ! 0) = 3)"
  by (cases cs; cases "hd cs"; cases "tl cs") (auto simp: only_static_text_def)

lemma source_test_iff:
  "(el_static e \<and> cs \<noteq> [] \<and> \<not> (length cs = 1 \<and> node_type (cs ! 0) = 3)) \<longleftrightarrow> qualifies_as_root e cs"
  by (cases cs) (auto simp: qualifies_as_root_def only_static_text_iff)

lemma node_type_markStaticRoots: "node_type (markStaticRoots n f) = node_type n"
  by (cases n) (simp_all add: Let_def)

lemma markStaticRoots_root:
  "qualifies_as_root e cs \<Longrightarrow>
   markStaticRoots (ASTElement e cs ifs) f =
     ASTElement (e\<lparr>el_staticInFor := Some f, el_staticRoot := Some True\<rparr>) cs ifs"
  using source_test_iff[of e cs] by (auto simp: qualifies_as_root_def)

lemma markStaticRoots_not_root:
  "\<not> qualifies_as_root e cs \<Longrightarrow>
   markStaticRoots (ASTElement e cs ifs) f =
     ASTElement ((if el_static e \<or> el_once e then e\<lparr>el_staticInFor := Some f\<rparr> else e)
                   \<lparr>el_staticRoot := Some False\<rparr>)
       (map (\<lambda>c. markStaticRoots c (f \<or> truthy_str (el_for e))) cs)
       (map_option (map (\<lambda>p. (fst p, markStaticRoots (snd p) f))) ifs)"
  using source_test_iff[of e cs] by (auto simp: Let_def)

declare markStaticRoots.simps(1) [simp del]

lemma only_static_text_map:
  "only_static_text (map (\<lambda>c. markStaticRoots c g) cs) = only_static_text cs"
  by (cases cs) (auto simp: only_static_text_iff node_type_markStaticRoots)

lemma markStaticRoots_tree: "unmarked n \<Longrightarrow> roots_marked (markStaticRoots n f)"
proof (induction n f rule: markStaticRoots.induct)
  case (1 e cs ifs isInFor)
  show ?case
  proof (cases "qualifies_as_root e cs")
    case True
    with "1.prems" show ?thesis
      by (simp add: markStaticRoots_root qualifies_as_root_def)
  next
    case False
    then have nt: "\<not> (el_static (if el_static e \<or> el_once e then e\<lparr>el_staticInFor := Some isInFor\<rparr> else e) \<and>
            cs \<noteq> [] \<and> \<not> (length cs = 1 \<and> node_type (cs ! 0) = 3))"
      using source_test_iff[of e cs] by auto
    have c: "list_all roots_marked (map (\<lambda>c. markStaticRoots c (isInFor \<or> truthy_str (el_for e))) cs)"
      using "1.IH"(1)[OF refl nt] "1.prems" by (auto simp: list_all_iff)
    have b: "case map_option (map (\<lambda>p. (fst p, markStaticRoots (snd p) isInFor))) ifs of
               None \<Rightarrow> True | Some bs \<Rightarrow> list_all (\<lambda>p. roots_marked (snd p)) bs"
    proof (cases ifs)
      case None then show ?thesis by simp
    next
      case (Some bs)
      then show ?thesis
        using "1.IH"(2)[OF refl nt Some] "1.prems" by (auto simp: list_all_iff)
    qed
    have q: "\<not> qualifies_as_root ((if el_static e \<or> el_once e then e\<lparr>el_staticInFor := Some isInFor\<rparr> else e)
                   \<lparr>el_staticRoot := Some False\<rparr>) (map (\<lambda>c. markStaticRoots c (isInFor \<or> truthy_str (el_for e))) cs)"
      using False by (auto simp: qualifies_as_root_def only_static_text_map)
    show ?thesis
      unfolding markStaticRoots_not_root[OF False] using c b q by simp
  qed
qed simp_all

text \<open>
  Claim C8. In the second pass an element is marked as a static root exactly when it is
  static, has at least one child, and its children are not exactly one static text node.
  A node marked as a static root is returned with its children and conditional branches
  as they were (no recursion); a node that fails the test has every child and every
  conditional branch (from index 1) visited. On a tree not marked before, the whole result
  is marked accordingly at every depth the pass reaches.
\<close>

theorem markStaticRoots_static_root:
  "root_flag (markStaticRoots (ASTElement e cs ifs) f) = Some (qualifies_as_root e cs) \<and>
   (qualifies_as_root e cs \<longrightarrow>
      node_children (markStaticRoots (ASTElement e cs ifs) f) = cs \<and>
      node_branches (markStaticRoots (ASTElement e cs ifs) f) = branch_blocks ifs) \<and>
   (\<not> qualifies_as_root e cs \<longrightarrow>
      node_children (markStaticRoots (ASTElement e cs ifs) f) =
        map (\<lambda>c. markStaticRoots c (f \<or> truthy_str (el_for e))) cs \<and>
      node_branches (markStaticRoots (ASTElement e cs ifs) f) =
        map (\<lambda>b. markStaticRoots b f) (branch_blocks ifs)) \<and>
   (unmarked (ASTElement e cs ifs) \<longrightarrow> roots_marked (markStaticRoots (ASTElement e cs ifs) f))"
proof -
  let ?r = "markStaticRoots (ASTElement e cs ifs) f"
  have flag: "root_flag ?r = Some (qualifies_as_root e cs)"
    by (cases "qualifies_as_root e cs")
       (simp_all add: markStaticRoots_root markStaticRoots_not_root)
  have kept: "node_children ?r = cs \<and> node_branches ?r = branch_blocks ifs"
    if "qualifies_as_root e cs"
    using that by (simp add: markStaticRoots_root)
  have blocks: "branch_blocks (map_option (map (\<lambda>p. (fst p, markStaticRoots (snd p) f))) ifs) =
        map (\<lambda>b. markStaticRoots b f) (branch_blocks ifs)"
    by (cases ifs) (simp_all add: comp_def)
  have visited: "node_children ?r = map (\<lambda>c. markStaticRoots c (f \<or> truthy_str (el_for e))) cs \<and>
      node_branches ?r = map (\<lambda>b. markStaticRoots b f) (branch_blocks ifs)"
    if "\<not> qualifies_as_root e cs"
    using that blocks by (simp add: markStaticRoots_not_root)
  have tree: "roots_marked ?r" if "unmarked (ASTElement e cs ifs)"
    using that by (rule markStaticRoots_tree)
  from flag kept visited tree show ?thesis by blast
qed


theorem markStaticRoots_static_root_witness:
  "qualifies_as_root (mk_el ''ul'' True)
     [ASTElement (mk_el ''li'' True) [ASTText ''a''] None, ASTText ''b''] \<and>
   unmarked (ASTElement (mk_el ''ul'' True)
     [ASTElement (mk_el ''li'' True) [ASTText ''a''] None, ASTText ''b''] None) \<and>
   markStaticRoots (ASTElement (mk_el ''ul'' True)
     [ASTElement (mk_el ''li'' True) [ASTText ''a''] None, ASTText ''b''] None) False =
     ASTElement ((mk_el ''ul'' True)\<lparr>el_staticInFor := Some False, el_staticRoot := Some True\<rparr>)
       [ASTElement (mk_el ''li'' True) [ASTText ''a''] None, ASTText ''b''] None \<and>
   \<not> qualifies_as_root (mk_el ''p'' True) [ASTText ''a''] \<and>
   root_flag (markStaticRoots (ASTElement (mk_el ''p'' True) [ASTText ''a'']
       (Some [(None, ASTElement (mk_el ''ul'' True) [ASTText ''x'', ASTText ''y''] None)])) False)
     = Some False \<and>
   node_branches (markStaticRoots (ASTElement (mk_el ''p'' True) [ASTText ''a'']
       (Some [(None, ASTElement (mk_el ''ul'' True) [ASTText ''x'', ASTText ''y''] None)])) False)
     = [ASTElement ((mk_el ''ul'' True)\<lparr>el_staticInFor := Some False, el_staticRoot := Some True\<rparr>)
          [ASTText ''x'', ASTText ''y''] None]"
proof -
  have q1: "qualifies_as_root (mk_el ''ul'' True)
     [ASTElement (mk_el ''li'' True) [ASTText ''a''] None, ASTText ''b'']"
    by (simp add: qualifies_as_root_def only_static_text_def mk_el_def)
  have u1: "unmarked (ASTElement (mk_el ''ul'' True)
     [ASTElement (mk_el ''li'' True) [ASTText ''a''] None, ASTText ''b''] None)"
    by (simp add: mk_el_def)
  have q2: "\<not> qualifies_as_root (mk_el ''p'' True) [ASTText ''a'']"
    by (simp add: qualifies_as_root_def only_static_text_def mk_el_def)
  have q3: "qualifies_as_root (mk_el ''ul'' True) [ASTText ''x'', ASTText ''y'']"
    by (simp add: qualifies_as_root_def only_static_text_def mk_el_def)
  note a = markStaticRoots_static_root [of "mk_el ''ul'' True"
     "[ASTElement (mk_el ''li'' True) [ASTText ''a''] None, ASTText ''b'']" None False]
  note b = markStaticRoots_static_root [of "mk_el ''p'' True" "[ASTText ''a'']"
     "Some [(None, ASTElement (mk_el ''ul'' True) [ASTText ''x'', ASTText ''y''] None)]" False]
  have r1: "markStaticRoots (ASTElement (mk_el ''ul'' True)
     [ASTElement (mk_el ''li'' True) [ASTText ''a''] None, ASTText ''b''] None) False =
     ASTElement ((mk_el ''ul'' True)\<lparr>el_staticInFor := Some False, el_staticRoot := Some True\<rparr>)
       [ASTElement (mk_el ''li'' True) [ASTText ''a''] None, ASTText ''b''] None"
    using a q1 u1 by (simp add: markStaticRoots_root)
  have r2: "node_branches (markStaticRoots (ASTElement (mk_el ''p'' True) [ASTText ''a'']
       (Some [(None, ASTElement (mk_el ''ul'' True) [ASTText ''x'', ASTText ''y''] None)])) False)
     = [ASTElement ((mk_el ''ul'' True)\<lparr>el_staticInFor := Some False, el_staticRoot := Some True\<rparr>)
          [ASTText ''x'', ASTText ''y''] None]"
    using b q2 q3 by (simp add: markStaticRoots_root)
  from a b q1 u1 q2 r1 r2 show ?thesis by simp
qed

section \<open>Proofs: component v-model\<close>

lemma transformModel_attr:
  assumes "d_model data = Some m" and "transformModel om data = Inr d'"
  shows "data_attr d' = (data_attr data)(model_prop om \<mapsto> m_value m)"
  using assms
  by (auto simp: transformModel_def data_attr_def model_prop_def Let_def update_conv'
           split: option.splits)

lemma transformModel_on:
  assumes "d_model data = Some m" and "transformModel om data = Inr d'"
  shows "data_on d' = (data_on data)(model_event om \<mapsto>
           (case data_on data (model_event om) of
              None \<Rightarrow> Handler (m_callback m)
            | Some l \<Rightarrow> if m_callback m \<in> set (listener_fns l) then l
                        else Handlers (m_callback m # listener_fns l)))"
proof -
  let ?on = "case d_on data of Some h \<Rightarrow> h | None \<Rightarrow> []"
  have look: "data_on data = map_of ?on"
    by (auto simp: data_on_def split: option.splits)
  show ?thesis
  proof (cases "map_of ?on (model_event om)")
    case None
    then show ?thesis using assms look
      by (auto simp: transformModel_def model_event_def Let_def update_conv' data_on_def
               split: option.splits)
  next
    case (Some l)
    then show ?thesis using assms look
      by (cases l)
         (auto simp: transformModel_def model_event_def Let_def update_conv' data_on_def
               fun_upd_idem split: option.splits)
  qed
qed

text \<open>
  Claim C7, as the code has it. When the data of a component node carries v-model,
  \<open>createComponent\<close> stores the model value as the attribute named by
  \<open>options.model.prop\<close> (default \<open>value\<close>) and merges the callback into the listeners of
  the event named by \<open>options.model.event\<close> (default \<open>input\<close>): with no listener yet
  the callback is installed directly; with a listener that does not contain the callback
  already, the new listener is the list that starts with the callback, followed by the
  existing function or functions (the callback is put in front, it is not appended);
  a listener that contains the callback is left as it is. Every other attribute and
  every other event is unchanged.
\<close>

theorem createComponent_model_desugar:
  assumes "d_model data = Some m"
  shows "\<exists>d'. createComponent_model om data = Inr d' \<and>
     data_attr d' = (data_attr data)(model_prop om \<mapsto> m_value m) \<and>
     data_on d' = (data_on data)(model_event om \<mapsto>
           (case data_on data (model_event om) of
              None \<Rightarrow> Handler (m_callback m)
            | Some l \<Rightarrow> if m_callback m \<in> set (listener_fns l) then l
                        else Handlers (m_callback m # listener_fns l)))"
proof -
  obtain d' where d': "transformModel om data = Inr d'"
    using assms by (auto simp: transformModel_def Let_def)
  then have "createComponent_model om data = Inr d'"
    using assms by (simp add: createComponent_model_def)
  with transformModel_attr[OF assms d'] transformModel_on[OF assms d'] show ?thesis
    by blast
qed

theorem createComponent_model_desugar_witness:
  "d_model model_sample = Some \<lparr>m_value = Str ''x'', m_callback = 7\<rparr> \<and>
   (\<exists>d'. createComponent_model None model_sample = Inr d' \<and>
      data_attr d' ''value'' = Some (Str ''x'') \<and>
      data_on d' ''input'' = Some (Handlers [7, 3]))"
proof -
  have m: "d_model model_sample = Some \<lparr>m_value = Str ''x'', m_callback = 7\<rparr>"
    by (simp add: model_sample_def empty_data_def)
  have e: "data_on model_sample ''input'' = Some (Handler 3)"
    by (simp add: model_sample_def empty_data_def data_on_def)
  from createComponent_model_desugar[OF m, of None] e m show ?thesis
    by (auto simp: model_prop_def model_event_def or_default_def)
qed

text \<open>
  Claim C7 as stated fails: with the listener \<open>3\<close> on \<open>input\<close> and the v-model callback
  \<open>7\<close>, the combined list is \<open>[7, 3]\<close>, not the existing listener with the callback
  appended, \<open>[3, 7]\<close>.
\<close>

theorem createComponent_model_appends_counterexample:
  "data_on model_sample ''input'' = Some (Handler 3) \<and>
   (case createComponent_model None model_sample of
      Inr d' \<Rightarrow> data_on d' ''input'' = Some (Handlers [7, 3]) \<and>
                data_on d' ''input'' \<noteq> Some (Handlers ([3] @ [7]))
    | Inl e \<Rightarrow> False)"
  by (simp add: model_sample_def empty_data_def createComponent_model_def transformModel_def
        or_default_def data_on_def)

section \<open>Proofs: tree builder\<close>

lemma createElement_observed_production:
  "d_ob d \<Longrightarrow> production env \<Longrightarrow>
   createElement_impl env context tag (Some d) children nt = Inr (BuiltNode createEmptyVNode, [])"
  by (simp add: createElement_impl_def)

lemma createElement_observed_development:
  "d_ob d \<Longrightarrow> \<not> production env \<Longrightarrow>
   createElement_impl env context tag (Some d) children nt =
     (case stringify env d of
        Inl e \<Rightarrow> Inl e
      | Inr json \<Rightarrow> Inr (BuiltNode createEmptyVNode, [observed_warning json]))"
  by (simp add: createElement_impl_def)

lemma createElement_falsy:
  "\<not> (case data of Some d \<Rightarrow> d_ob d | None \<Rightarrow> False) \<Longrightarrow> \<not> truthy (effective_tag tag data) \<Longrightarrow>
   createElement_impl env context tag data children nt = Inr (BuiltNode createEmptyVNode, [])"
  by (auto simp: createElement_impl_def split: option.splits)

text \<open>
  Claim C5, as the code has it. \<open>_createElement\<close> returns the empty placeholder node,
  and raises nothing, (a) when the data argument is an observed object, in a production
  build with no warning, and in a development build with one warning whose text holds
  what \<open>JSON.stringify(data)\<close> returned, when that call returns; and (b) when the data is
  not an observed object and the tag in effect is falsy, where the tag in effect is
  \<open>data.is\<close> when the data has a defined \<open>is\<close>, and the tag argument otherwise.
\<close>

theorem createElement_placeholder:
  "(d_ob d \<and> production env \<longrightarrow>
      createElement_impl env context tag (Some d) children nt =
        Inr (BuiltNode createEmptyVNode, [])) \<and>
   (d_ob d \<and> \<not> production env \<and> stringify env d = Inr json \<longrightarrow>
      createElement_impl env context tag (Some d) children nt =
        Inr (BuiltNode createEmptyVNode, [observed_warning json])) \<and>
   (\<not> (case data of Some d \<Rightarrow> d_ob d | None \<Rightarrow> False) \<and> \<not> truthy (effective_tag tag data) \<longrightarrow>
      createElement_impl env context tag data children nt = Inr (BuiltNode createEmptyVNode, []))"
proof (intro conjI impI)
  assume "d_ob d \<and> production env"
  then show "createElement_impl env context tag (Some d) children nt =
        Inr (BuiltNode createEmptyVNode, [])"
    by (simp add: createElement_observed_production)
next
  assume a: "d_ob d \<and> \<not> production env \<and> stringify env d = Inr json"
  then have "createElement_impl env context tag (Some d) children nt =
      (case stringify env d of
         Inl e \<Rightarrow> Inl e
       | Inr json \<Rightarrow> Inr (BuiltNode createEmptyVNode, [observed_warning json]))"
    by (simp add: createElement_observed_development)
  with a show "createElement_impl env context tag (Some d) children nt =
        Inr (BuiltNode createEmptyVNode, [observed_warning json])"
    by simp
next
  assume "\<not> (case data of Some d \<Rightarrow> d_ob d | None \<Rightarrow> False) \<and> \<not> truthy (effective_tag tag data)"
  then show "createElement_impl env context tag data children nt =
      Inr (BuiltNode createEmptyVNode, [])"
    by (simp add: createElement_falsy)
qed

theorem createElement_placeholder_witness:
  "d_ob (empty_data\<lparr>d_ob := True\<rparr>) \<and> production production_env \<and>
   createElement_impl production_env ctx0 (Str ''div'') (Some (empty_data\<lparr>d_ob := True\<rparr>))
       (ChildVal Undefined) None = Inr (BuiltNode createEmptyVNode, []) \<and>
   production web_env = False \<and> stringify web_env (empty_data\<lparr>d_ob := True\<rparr>) = Inr ''{}'' \<and>
   createElement_impl web_env ctx0 (Str ''div'') (Some (empty_data\<lparr>d_ob := True\<rparr>))
       (ChildVal Undefined) None =
     Inr (BuiltNode createEmptyVNode, [observed_warning ''{}'']) \<and>
   truthy (effective_tag (Str []) (Some (empty_data\<lparr>d_is := Null\<rparr>))) = False \<and>
   createElement_impl web_env ctx0 (Str []) (Some (empty_data\<lparr>d_is := Null\<rparr>))
       (ChildVal Undefined) None = Inr (BuiltNode createEmptyVNode, [])"
proof -
  let ?ob = "empty_data\<lparr>d_ob := True\<rparr>"
  let ?fresh = "Some (empty_data\<lparr>d_is := Null\<rparr>)"
  have ob: "d_ob ?ob"
    by simp
  have prod: "production production_env"
    by (simp add: production_env_def)
  have dev: "\<not> production web_env"
    by (simp add: web_env_def)
  have json: "stringify web_env ?ob = Inr ''{}''"
    by (simp add: web_env_def)
  have fresh: "\<not> (case ?fresh of Some d \<Rightarrow> d_ob d | None \<Rightarrow> False)"
    by (simp add: empty_data_def)
  have falsy: "\<not> truthy (effective_tag (Str []) ?fresh)"
    by (simp add: effective_tag_def isDef_def)
  from createElement_placeholder
         [of ?ob production_env ctx0 "Str ''div''" "ChildVal Undefined" None "''{}''" ?fresh]
       ob prod
  have a: "createElement_impl production_env ctx0 (Str ''div'') (Some ?ob) (ChildVal Undefined) None
             = Inr (BuiltNode createEmptyVNode, [])"
    by blast
  from createElement_placeholder
         [of ?ob web_env ctx0 "Str ''div''" "ChildVal Undefined" None "''{}''" ?fresh]
       ob dev json
  have b: "createElement_impl web_env ctx0 (Str ''div'') (Some ?ob) (ChildVal Undefined) None
             = Inr (BuiltNode createEmptyVNode, [observed_warning ''{}''])"
    by blast
  from createElement_placeholder
         [of ?ob web_env ctx0 "Str []" "ChildVal Undefined" None "''{}''" ?fresh]
       fresh falsy
  have c: "createElement_impl web_env ctx0 (Str []) ?fresh (ChildVal Undefined) None
             = Inr (BuiltNode createEmptyVNode, [])"
    by blast
  from ob prod dev json falsy a b c show ?thesis
    by simp
qed

text \<open>
  Claim C5 as stated fails in both cases. (b): with the tag argument \<open>undefined\<close>
  (falsy) and the fresh data \<open>{ is: 'div' }\<close>, the tag becomes \<open>'div'\<close> and the result is
  a \<open>div\<close> element node, not the empty placeholder. (a): in a development build, with
  observed data on which \<open>JSON.stringify\<close> throws, the \<open>TypeError\<close> leaves
  \<open>_createElement\<close>: no warning is given and no placeholder is returned.
\<close>

theorem createElement_placeholder_counterexample:
  "\<not> truthy Undefined \<and>
   createElement_impl web_env ctx0 Undefined (Some (empty_data\<lparr>d_is := Str ''div''\<rparr>))
       (ChildVal Undefined) None =
     Inr (BuiltNode (new_VNode (Some ''div'') (Some (empty_data\<lparr>d_is := Str ''div''\<rparr>))
                        (ChildVal Undefined) (Some 0)), []) \<and>
   new_VNode (Some ''div'') (Some (empty_data\<lparr>d_is := Str ''div''\<rparr>)) (ChildVal Undefined) (Some 0)
     \<noteq> createEmptyVNode \<and>
   d_ob (empty_data\<lparr>d_ob := True\<rparr>) \<and>
   createElement_impl cyclic_env ctx0 (Str ''div'') (Some (empty_data\<lparr>d_ob := True\<rparr>))
       (ChildVal Undefined) None = Inl TypeError"
  by (simp add: createElement_impl_def effective_tag_def isDef_def empty_data_def web_env_def
        cyclic_env_def ctx0_def key_check_def scoped_slot_step_def normalize_step_def
        build_step_def finish_step_def new_VNode_def createEmptyVNode_def)

text \<open>
  Claim C6. In a call of \<open>_createElement\<close> that gets past the two placeholder returns
  (the data is not observed and the tag in effect is truthy), when the children argument
  is an array whose first entry is a function (in particular when that function is the sole
  child), the function is installed as \<open>data.scopedSlots.default\<close>, on a fresh data object
  when there was none, and the children list is emptied before normalization: the
  normalizer is applied to the empty list, and the node is built from the new data and
  the normalized empty list.
\<close>

theorem createElement_scoped_slot:
  assumes "\<not> (case data of Some d \<Rightarrow> d_ob d | None \<Rightarrow> False)"
      and "truthy (effective_tag tag data)"
  shows "scoped_slot_step data (ChildArr (ChildVal (Func f) # rest)) =
           (Some ((case data of Some d \<Rightarrow> d | None \<Rightarrow> empty_data)
                    \<lparr>d_scopedSlots := Some [(''default'', f)]\<rparr>), ChildArr []) \<and>
         createElement_impl env context tag data (ChildArr (ChildVal (Func f) # rest)) nt =
           (case build_step env context (effective_tag tag data)
                   (Some ((case data of Some d \<Rightarrow> d | None \<Rightarrow> empty_data)
                            \<lparr>d_scopedSlots := Some [(''default'', f)]\<rparr>))
                   (normalize_step env nt (ChildArr [])) of
              (vnode, ns, w2) \<Rightarrow>
                (case finish_step vnode ns of
                   Inl e \<Rightarrow> Inl e
                 | Inr r \<Rightarrow> Inr (r, key_check env data @ w2)))"
  using assms
  by (auto simp: createElement_impl_def scoped_slot_step_def split: option.splits prod.splits)

theorem createElement_scoped_slot_witness:
  "createElement_impl web_env ctx0 (Str ''div'') None (ChildArr [ChildVal (Func 5)]) (Some 2) =
     Inr (BuiltNode (new_VNode (Some ''div'')
            (Some (empty_data\<lparr>d_scopedSlots := Some [(''default'', 5)]\<rparr>)) (ChildArr []) (Some 0)), [])"
proof -
  have a: "\<not> (case (None :: vnode_data option) of Some d \<Rightarrow> d_ob d | None \<Rightarrow> False)" by simp
  have b: "truthy (effective_tag (Str ''div'') None)" by (simp add: effective_tag_def)
  from createElement_scoped_slot [OF a b, of 5 "[]" web_env ctx0 "Some 2"] show ?thesis
    by (simp add: effective_tag_def web_env_def ctx0_def normalize_step_def build_step_def
          finish_step_def key_check_def ALWAYS_NORMALIZE_def empty_data_def)
qed

section \<open>Proofs: keep-alive cache\<close>

subsection \<open>The cache object and its enumeration\<close>

lemma cache_get_update:
  "cache_get (AList.update k v c) k' = (if k' = k then v else cache_get c k')"
  by (cases v) (auto simp: cache_get_def update_conv')

lemma cache_get_Nil [simp]: "cache_get [] k = None"
  by (simp add: cache_get_def)

lemma cache_get_Cons:
  "cache_get ((k, v) # c) k' = (if k' = k then v else cache_get c k')"
  by (cases v) (auto simp: cache_get_def)

lemma cache_get_notin: "k \<notin> fst ` set c \<Longrightarrow> cache_get c k = None"
  by (simp add: cache_get_def map_of_eq_None_iff[THEN iffD2])

lemma live_entries_Nil [simp]: "live_entries [] = []"
  by (simp add: live_entries_def)

lemma live_entries_Cons:
  "live_entries ((k, v) # c) = (case v of Some e \<Rightarrow> [(k, e)] | None \<Rightarrow> []) @ live_entries c"
  by (simp add: live_entries_def)

lemma live_entries_keys:
  "distinct (map fst c) \<Longrightarrow>
   distinct (map fst (live_entries c)) \<and>
   set (map fst (live_entries c)) = {k. cache_get c k \<noteq> None}"
proof (induction c)
  case Nil
  then show ?case by simp
next
  case (Cons p c)
  obtain k v where p: "p = (k, v)" by (cases p)
  from Cons.prems p have k: "k \<notin> fst ` set c" and d: "distinct (map fst c)" by auto
  from Cons.IH[OF d] have ih1: "distinct (map fst (live_entries c))"
    and ih2: "set (map fst (live_entries c)) = {k. cache_get c k \<noteq> None}" by auto
  have none: "cache_get c k = None" using k by (rule cache_get_notin)
  then have knot: "k \<notin> set (map fst (live_entries c))" using ih2 by auto
  show ?case
  proof (cases v)
    case None
    then show ?thesis using p ih1 ih2 none
      by (auto simp: live_entries_Cons cache_get_Cons)
  next
    case (Some e)
    then show ?thesis using p ih1 ih2 knot
      by (auto simp: live_entries_Cons cache_get_Cons)
  qed
qed

lemma for_in_set: "set (for_in obj) = fst ` set obj"
  by (auto simp add: for_in_def)

lemma for_in_distinct: "distinct (map fst obj) \<Longrightarrow> distinct (for_in obj)"
  by (auto simp add: for_in_def)

lemma is_Str_iff: "is_Str v \<longleftrightarrow> (\<exists>s. v = Str s)"
  by (cases v) simp_all

lemma ck_inv_length:
  assumes "ck_inv cache keys"
  shows "length (live_entries cache) = length keys"
proof -
  from assms have d: "distinct (map fst cache)" and dk: "distinct keys"
    and s: "set keys = Str ` {k. cache_get cache k \<noteq> None}" by (auto simp: ck_inv_def)
  from live_entries_keys[OF d]
  have dl: "distinct (map fst (live_entries cache))"
    and sl: "set (map fst (live_entries cache)) = {k. cache_get cache k \<noteq> None}" by auto
  have "length keys = card (set keys)"
    using dk by (simp add: distinct_card)
  also have "\<dots> = card {k. cache_get cache k \<noteq> None}"
    unfolding s by (rule card_image) (simp add: inj_on_def)
  also have "\<dots> = length (map fst (live_entries cache))"
    using dl sl by (metis distinct_card)
  finally show ?thesis by simp
qed

subsection \<open>The invariant, for keys that are strings\<close>

lemma pruneCacheEntry_inv:
  assumes "ck_inv cache keys" and "is_Str key"
    and "pruneCacheEntry cache key keys current = (cache', keys', d)"
  shows "ck_inv cache' keys' \<and> set keys' \<subseteq> set keys \<and> length keys' \<le> length keys"
proof -
  from assms(2) obtain k where key: "key = Str k"
    by (auto simp add: is_Str_iff)
  from assms(3) have c: "cache' = AList.update k None cache" and k: "keys' = remove1 (Str k) keys"
    by (auto simp: pruneCacheEntry_def Let_def key)
  from assms(1) have "distinct (map fst cache')"
    unfolding c ck_inv_def by (simp add: distinct_update)
  moreover from assms(1) have "distinct keys'" unfolding k ck_inv_def by simp
  moreover from assms(1) have "list_all is_Str keys'"
    unfolding k ck_inv_def by (auto simp add: list_all_iff dest: notin_set_remove1)
  moreover from assms(1) have "set keys' = Str ` {k. cache_get cache' k \<noteq> None}"
    unfolding k c ck_inv_def by (auto simp: cache_get_update)
  moreover have "set keys' \<subseteq> set keys" unfolding k by (rule set_remove1_subset)
  moreover have "length keys' \<le> length keys" unfolding k
    by (cases "Str k \<in> set keys") (simp_all add: length_remove1 remove1_idem)
  ultimately show ?thesis by (simp add: ck_inv_def)
qed

lemma pruneCache_loop_inv:
  assumes "ck_inv cache keys"
      and "pruneCache_loop ks keep current (cache, keys, log) = (cache', keys', log')"
  shows "ck_inv cache' keys' \<and> set keys' \<subseteq> set keys \<and> length keys' \<le> length keys"
  using assms
proof (induction ks arbitrary: cache keys log)
  case Nil
  then show ?case by simp
next
  case (Cons key rest)
  show ?case
  proof (cases "\<exists>entry name. cache_get cache key = Some entry \<and> ce_name entry = Some name
                  \<and> name \<noteq> [] \<and> \<not> keep name")
    case True
    obtain c1 k1 d1 where p: "pruneCacheEntry cache (Str key) keys current = (c1, k1, d1)"
      by (cases "pruneCacheEntry cache (Str key) keys current") auto
    from True p Cons.prems(2)
    have r: "pruneCache_loop rest keep current (c1, k1, log @ d1) = (cache', keys', log')"
      by auto
    have "is_Str (Str key)"
      by simp
    from pruneCacheEntry_inv[OF Cons.prems(1) this p]
    have i1: "ck_inv c1 k1" and s1: "set k1 \<subseteq> set keys" and l1: "length k1 \<le> length keys"
      by auto
    from Cons.IH[OF i1 r] s1 l1 show ?thesis by auto
  next
    case False
    with Cons.prems(2)
    have r: "pruneCache_loop rest keep current (cache, keys, log) = (cache', keys', log')"
      by (auto split: option.splits if_splits)
    from Cons.IH[OF Cons.prems(1) r] show ?thesis .
  qed
qed

lemma created_inv: "ka_vnodeToCache s = None \<Longrightarrow> ka_inv (created s)"
  by (simp add: ka_inv_def created_def ck_inv_def split: option.splits)

lemma cache_key_string:
  "\<not> isDef (kv_key vnode) \<or> is_Str (kv_key vnode) \<Longrightarrow> is_Str (cache_key vnode co)"
  by (auto simp add: cache_key_def)

lemma render_inv:
  assumes "ka_inv s" and "string_keyed (Render first_child slot0)"
  shows "ka_inv (fst (render s first_child slot0))"
proof (cases "\<exists>vnode co. first_child = Some vnode \<and> kv_componentOptions vnode = Some co
                \<and> \<not> bypass s (getComponentName (Some co))")
  case False
  then have "fst (render s first_child slot0) = s"
    by (auto simp: render_def Let_def split: option.splits)
  with assms show ?thesis by simp
next
  case True
  then obtain vnode co where v: "first_child = Some vnode" "kv_componentOptions vnode = Some co"
    "\<not> bypass s (getComponentName (Some co))" by blast
  let ?key = "cache_key vnode co"
  from assms(2) v(1) have "is_Str ?key"
    by (simp add: cache_key_string)
  then obtain name where name: "?key = Str name"
    by (auto simp add: is_Str_iff)
  show ?thesis
  proof (cases "cache_get (ka_cache s) name")
    case None
    then have r: "fst (render s first_child slot0) =
                    s\<lparr>ka_vnodeToCache := Some vnode, ka_keyToCache := ?key\<rparr>"
      using v by (simp add: render_def Let_def name)
    from None assms(1) have "?key \<notin> set (ka_keys s)"
      by (auto simp: ka_inv_def ck_inv_def name)
    with assms(1) show ?thesis unfolding r by (simp add: ka_inv_def name)
  next
    case (Some entry)
    then have r: "fst (render s first_child slot0) =
                    s\<lparr>ka_keys := remove1 ?key (ka_keys s) @ [?key]\<rparr>"
      using v by (simp add: render_def Let_def name)
    from Some assms(1) have kin: "?key \<in> set (ka_keys s)" and dk: "distinct (ka_keys s)"
      by (auto simp: ka_inv_def ck_inv_def name)
    have s: "set (remove1 ?key (ka_keys s) @ [?key]) = set (ka_keys s)"
      using kin dk by auto
    have d: "distinct (remove1 ?key (ka_keys s) @ [?key])" using dk by auto
    have l: "length (remove1 ?key (ka_keys s) @ [?key]) = length (ka_keys s)"
      using kin by (simp add: length_remove1) (metis length_pos_if_in_set Suc_pred)
    from assms(1) have ck: "ck_inv (ka_cache s) (ka_keys s)"
      and pend: "ka_vnodeToCache s \<noteq> None \<longrightarrow>
                   is_Str (ka_keyToCache s) \<and> ka_keyToCache s \<notin> set (ka_keys s)"
      and bound: "\<forall>m. ka_max s = Some m \<and> 0 < m \<longrightarrow> length (ka_keys s) \<le> m"
      by (auto simp: ka_inv_def)
    have str: "list_all is_Str (remove1 ?key (ka_keys s) @ [?key])"
      using ck s by (simp add: list_all_iff ck_inv_def del: set_append)
    have ck': "ck_inv (ka_cache s) (remove1 ?key (ka_keys s) @ [?key])"
      unfolding ck_inv_def s using ck d str by (simp only: ck_inv_def simp_thms)
    let ?s' = "s\<lparr>ka_keys := remove1 ?key (ka_keys s) @ [?key]\<rparr>"
    have sel: "ka_cache ?s' = ka_cache s" "ka_keys ?s' = remove1 ?key (ka_keys s) @ [?key]"
      "ka_vnodeToCache ?s' = ka_vnodeToCache s" "ka_keyToCache ?s' = ka_keyToCache s"
      "ka_max ?s' = ka_max s" by simp_all
    show ?thesis unfolding r ka_inv_def sel s l
      using ck' pend bound by blast
  qed
qed

lemma cacheVNode_inv:
  assumes "ka_inv s"
  shows "ka_inv (cacheVNode s)"
proof (cases "ka_vnodeToCache s")
  case None
  then show ?thesis using assms by (simp add: cacheVNode_def)
next
  case (Some v)
  let ?k = "ka_keyToCache s"
  let ?e = "\<lparr>ce_name = getComponentName (kv_componentOptions v), ce_tag = kv_tag v,
              ce_componentInstance = kv_componentInstance v\<rparr>"
  let ?cache = "AList.update (ToString ?k) (Some ?e) (ka_cache s)"
  let ?keys = "ka_keys s @ [?k]"
  from Some assms have fresh: "?k \<notin> set (ka_keys s)" and str: "is_Str ?k"
    by (simp_all add: ka_inv_def)
  from str obtain name where name: "?k = Str name"
    by (auto simp add: is_Str_iff)
  from assms have i0: "ck_inv (ka_cache s) (ka_keys s)" by (simp add: ka_inv_def)
  have i1: "ck_inv ?cache ?keys"
    using i0 fresh
    by (auto simp: ck_inv_def distinct_update cache_get_update name)
  show ?thesis
  proof (cases "case ka_max s of Some m \<Rightarrow> m \<noteq> 0 \<and> length ?keys > m | None \<Rightarrow> False")
    case False
    then have r: "cacheVNode s = s\<lparr>ka_cache := ?cache, ka_keys := ?keys,
                     ka_destroyed := ka_destroyed s @ [], ka_vnodeToCache := None\<rparr>"
      using Some by (simp add: cacheVNode_def Let_def)
    from False i1 show ?thesis unfolding r
      by (auto simp: ka_inv_def split: option.splits)
  next
    case True
    then obtain m where m: "ka_max s = Some m" "m \<noteq> 0" "length ?keys > m"
      by (auto split: option.splits)
    obtain c1 k1 d1 where p: "pruneCacheEntry ?cache (?keys ! 0) ?keys (ka_vnode s) = (c1, k1, d1)"
      by (cases "pruneCacheEntry ?cache (?keys ! 0) ?keys (ka_vnode s)") auto
    have r: "cacheVNode s = s\<lparr>ka_cache := c1, ka_keys := k1,
                     ka_destroyed := ka_destroyed s @ d1, ka_vnodeToCache := None\<rparr>"
      using Some True p by (simp add: cacheVNode_def Let_def)
    from p have k1: "k1 = remove1 (?keys ! 0) ?keys" by (auto simp: pruneCacheEntry_def Let_def)
    have mem: "?keys ! 0 \<in> set ?keys" by (metis length_greater_0_conv nth_mem snoc_eq_iff_butlast)
    with i1 have first: "is_Str (?keys ! 0)"
      by (simp add: ck_inv_def list_all_iff del: set_append)
    from mem have "length k1 = length ?keys - 1" unfolding k1 by (simp only: length_remove1 if_True)
    moreover from assms m have "length (ka_keys s) \<le> m" by (simp add: ka_inv_def)
    ultimately have "length k1 \<le> m" by simp
    with pruneCacheEntry_inv[OF i1 first p] m show ?thesis unfolding r
      by (simp add: ka_inv_def)
  qed
qed

lemma pruneCache_inv:
  assumes "ka_inv s"
  shows "ka_inv (pruneCache s keep)"
proof -
  obtain c1 k1 l1 where p: "pruneCache_loop (for_in (ka_cache s)) keep (ka_vnode s)
             (ka_cache s, ka_keys s, ka_destroyed s) = (c1, k1, l1)"
    by (cases "pruneCache_loop (for_in (ka_cache s)) keep (ka_vnode s)
             (ka_cache s, ka_keys s, ka_destroyed s)") auto
  then have r: "pruneCache s keep = s\<lparr>ka_cache := c1, ka_keys := k1, ka_destroyed := l1\<rparr>"
    by (simp add: pruneCache_def)
  from assms have "ck_inv (ka_cache s) (ka_keys s)" by (simp add: ka_inv_def)
  from pruneCache_loop_inv[OF this p] assms show ?thesis unfolding r
    by (auto simp: ka_inv_def split: option.splits)
qed

lemma ka_inv_include: "ka_inv (s\<lparr>ka_include := p\<rparr>) = ka_inv s"
  by (simp add: ka_inv_def)

lemma ka_inv_exclude: "ka_inv (s\<lparr>ka_exclude := p\<rparr>) = ka_inv s"
  by (simp add: ka_inv_def)

lemma ka_inv_max:
  assumes "ka_inv s" and "not_lowered (ka_max s) new"
  shows "ka_inv (s\<lparr>ka_max := new\<rparr>)"
proof -
  have "length (ka_keys s) \<le> m" if "new = Some m" "0 < m" for m
  proof -
    from that assms(2) obtain m0 where "ka_max s = Some m0" "0 < m0" "m0 \<le> m"
      by (auto simp add: not_lowered_def limit_of_def split: option.splits if_splits)
    with assms(1) show ?thesis
      by (auto simp add: ka_inv_def)
  qed
  with assms(1) show ?thesis
    by (simp add: ka_inv_def)
qed

lemma pruneCache_max: "ka_max (pruneCache s keep) = ka_max s"
  by (simp add: pruneCache_def split: prod.splits)

lemma ka_step_max:
  "ka_max (ka_step s e) = (case e of MaxChanged new \<Rightarrow> new | _ \<Rightarrow> ka_max s)"
  by (cases e)
     (auto simp: render_def cacheVNode_def pruneCache_max Let_def
           split: option.splits prod.splits)

lemma ka_step_inv:
  assumes "ka_inv s" and "string_keyed e" and "max_kept (ka_max s) [e]"
  shows "ka_inv (ka_step s e)"
proof (cases e)
  case (Render first_child slot0)
  with assms show ?thesis
    by (simp add: render_inv)
next
  case (Patch v)
  with assms(1) show ?thesis
    by (simp add: ka_inv_def)
next
  case Updated
  with assms(1) show ?thesis
    by (simp add: cacheVNode_inv)
next
  case (IncludeChanged p)
  with assms(1) show ?thesis
    by (simp add: pruneCache_inv ka_inv_include)
next
  case (ExcludeChanged p)
  with assms(1) show ?thesis
    by (simp add: pruneCache_inv ka_inv_exclude)
next
  case (MaxChanged new)
  with assms show ?thesis
    by (simp add: ka_inv_max)
qed

lemma max_kept_Cons:
  "max_kept cur (e # es) \<longleftrightarrow>
     max_kept cur [e] \<and> max_kept (case e of MaxChanged new \<Rightarrow> new | _ \<Rightarrow> cur) es"
  by (cases e) simp_all

lemma foldl_ka_step:
  "ka_inv s \<Longrightarrow> list_all string_keyed es \<Longrightarrow> max_kept (ka_max s) es \<Longrightarrow>
   ka_inv (foldl ka_step s es)"
proof (induction es arbitrary: s)
  case Nil
  then show ?case
    by simp
next
  case (Cons e es)
  from Cons.prems(3) have one: "max_kept (ka_max s) [e]"
    and rest: "max_kept (ka_max (ka_step s e)) es"
    by (simp_all add: max_kept_Cons [of _ e es] ka_step_max)
  from Cons.prems(1,2) one have "ka_inv (ka_step s e)"
    by (simp add: ka_step_inv)
  from Cons.IH [OF this _ rest] Cons.prems(2) show ?case
    by simp
qed

lemma ka_run_inv:
  "ka_vnodeToCache s = None \<Longrightarrow> list_all string_keyed es \<Longrightarrow> max_kept (ka_max s) es \<Longrightarrow>
   ka_inv (ka_run s es)"
  using foldl_ka_step[OF created_inv, of s es] by (simp add: ka_run_def created_def)

text \<open>
  Claim C4, as the code has it. For a fresh instance whose cached nodes have strings as
  keys (or no key) and whose \<open>max\<close> is never lowered, when \<open>max\<close> is a positive number
  \<open>m\<close>: in every state reached from \<open>created\<close> by renders, patches, the hooks that call
  \<open>cacheVNode\<close> and changes of \<open>include\<close>, \<open>exclude\<close> and \<open>max\<close>, the cache holds at most
  \<open>m\<close> entries and \<open>keys\<close> has at most \<open>m\<close> keys. A render that hits the cache moves
  the key, which is in \<open>keys\<close>, to the end of \<open>keys\<close> (most recently used) and leaves
  the cache as it is. When \<open>cacheVNode\<close> inserts into a full cache, the key at the front
  of \<open>keys\<close> (least recently used) leaves the key list and its entry leaves the cache;
  \<open>$destroy\<close> is called on the instance of that entry, except when there is a node on
  screen whose tag equals the tag of the entry.
\<close>

theorem keep_alive_bounded_lru:
  assumes "ka_vnodeToCache s0 = None"
      and "list_all string_keyed events"
      and "max_kept (ka_max s0) events"
      and "ka_max (ka_run s0 events) = Some m" and "0 < m"
  shows "length (live_entries (ka_cache (ka_run s0 events))) \<le> m \<and>
         length (ka_keys (ka_run s0 events)) \<le> m \<and>
         (string_keyed (Render (Some v) slot0) \<and> kv_componentOptions v = Some co \<and>
          \<not> bypass (ka_run s0 events) (getComponentName (Some co)) \<and>
          cache_get (ka_cache (ka_run s0 events)) (ToString (cache_key v co)) = Some e \<longrightarrow>
            cache_key v co \<in> set (ka_keys (ka_run s0 events)) \<and>
            ka_keys (fst (render (ka_run s0 events) (Some v) slot0)) =
              remove1 (cache_key v co) (ka_keys (ka_run s0 events)) @ [cache_key v co] \<and>
            ka_cache (fst (render (ka_run s0 events) (Some v) slot0)) =
              ka_cache (ka_run s0 events)) \<and>
         (ka_vnodeToCache (ka_run s0 events) = Some w \<and> length (ka_keys (ka_run s0 events)) = m \<longrightarrow>
            ka_keys (cacheVNode (ka_run s0 events)) =
              tl (ka_keys (ka_run s0 events)) @ [ka_keyToCache (ka_run s0 events)] \<and>
            cache_get (ka_cache (cacheVNode (ka_run s0 events)))
              (ToString (hd (ka_keys (ka_run s0 events)))) = None \<and>
            ka_destroyed (cacheVNode (ka_run s0 events)) =
              ka_destroyed (ka_run s0 events) @
              (case cache_get (ka_cache (ka_run s0 events))
                      (ToString (hd (ka_keys (ka_run s0 events)))) of
                 Some old \<Rightarrow>
                   if (case ka_vnode (ka_run s0 events) of
                         None \<Rightarrow> True
                       | Some cur \<Rightarrow> ce_tag old \<noteq> kv_tag cur)
                   then [ce_componentInstance old] else []
               | None \<Rightarrow> []))"
proof -
  let ?s = "ka_run s0 events"
  have inv: "ka_inv ?s"
    using assms(1-3) by (rule ka_run_inv)
  note mx = assms(4)
  from inv have ck: "ck_inv (ka_cache ?s) (ka_keys ?s)" by (simp add: ka_inv_def)
  from inv mx assms(5) have bound: "length (ka_keys ?s) \<le> m" by (simp add: ka_inv_def)
  have entries: "length (live_entries (ka_cache ?s)) \<le> m"
    using ck_inv_length[OF ck] bound by simp
  have hit: "cache_key v co \<in> set (ka_keys ?s) \<and>
            ka_keys (fst (render ?s (Some v) slot0)) =
              remove1 (cache_key v co) (ka_keys ?s) @ [cache_key v co] \<and>
            ka_cache (fst (render ?s (Some v) slot0)) = ka_cache ?s"
    if h: "string_keyed (Render (Some v) slot0) \<and> kv_componentOptions v = Some co \<and>
        \<not> bypass ?s (getComponentName (Some co)) \<and>
        cache_get (ka_cache ?s) (ToString (cache_key v co)) = Some e"
  proof -
    from h have "is_Str (cache_key v co)"
      by (simp add: cache_key_string)
    then obtain name where name: "cache_key v co = Str name"
      by (auto simp add: is_Str_iff)
    with h ck have "cache_key v co \<in> set (ka_keys ?s)"
      by (auto simp add: ck_inv_def)
    with h show ?thesis
      by (simp add: render_def Let_def)
  qed
  have evict: "ka_keys (cacheVNode ?s) = tl (ka_keys ?s) @ [ka_keyToCache ?s] \<and>
            cache_get (ka_cache (cacheVNode ?s)) (ToString (hd (ka_keys ?s))) = None \<and>
            ka_destroyed (cacheVNode ?s) =
              ka_destroyed ?s @
              (case cache_get (ka_cache ?s) (ToString (hd (ka_keys ?s))) of
                 Some old \<Rightarrow>
                   if (case ka_vnode ?s of None \<Rightarrow> True | Some cur \<Rightarrow> ce_tag old \<noteq> kv_tag cur)
                   then [ce_componentInstance old] else []
               | None \<Rightarrow> [])"
    if h: "ka_vnodeToCache ?s = Some w \<and> length (ka_keys ?s) = m"
  proof -
    let ?k = "ka_keyToCache ?s"
    let ?e = "\<lparr>ce_name = getComponentName (kv_componentOptions w), ce_tag = kv_tag w,
                ce_componentInstance = kv_componentInstance w\<rparr>"
    let ?cache = "AList.update (ToString ?k) (Some ?e) (ka_cache ?s)"
    from h assms(5) have ne: "ka_keys ?s \<noteq> []" by auto
    then have hd0: "(ka_keys ?s @ [?k]) ! 0 = hd (ka_keys ?s)"
      by (simp add: nth_append hd_conv_nth)
    from h inv have fresh: "?k \<notin> set (ka_keys ?s)" and str: "is_Str ?k"
      by (simp_all add: ka_inv_def)
    with ne have neq: "hd (ka_keys ?s) \<noteq> ?k" by (metis list.set_sel(1))
    from ne ck have "is_Str (hd (ka_keys ?s))"
      by (cases "ka_keys ?s") (auto simp add: ck_inv_def)
    with str neq have names: "ToString (hd (ka_keys ?s)) \<noteq> ToString ?k"
      by (auto simp add: is_Str_iff)
    have rm: "remove1 (hd (ka_keys ?s)) (ka_keys ?s @ [?k]) = tl (ka_keys ?s) @ [?k]"
      using ne by (cases "ka_keys ?s") simp_all
    have cond: "(case ka_max ?s of Some m \<Rightarrow> m \<noteq> 0 \<and> length (ka_keys ?s @ [?k]) > m
                 | None \<Rightarrow> False)"
      using mx h assms(5) by simp
    have old: "cache_get ?cache (ToString (hd (ka_keys ?s))) =
               cache_get (ka_cache ?s) (ToString (hd (ka_keys ?s)))"
      using names by (simp add: cache_get_update)
    have cv: "cacheVNode ?s =
        (case pruneCacheEntry ?cache (hd (ka_keys ?s)) (ka_keys ?s @ [?k]) (ka_vnode ?s) of
           (cache', keys', d) \<Rightarrow>
             ?s\<lparr>ka_cache := cache', ka_keys := keys', ka_destroyed := ka_destroyed ?s @ d,
                 ka_vnodeToCache := None\<rparr>)"
      using h cond hd0 by (simp add: cacheVNode_def Let_def)
    let ?d = "case cache_get (ka_cache ?s) (ToString (hd (ka_keys ?s))) of
                 Some old \<Rightarrow>
                   if (case ka_vnode ?s of None \<Rightarrow> True | Some cur \<Rightarrow> ce_tag old \<noteq> kv_tag cur)
                   then [ce_componentInstance old] else []
               | None \<Rightarrow> []"
    have pr: "pruneCacheEntry ?cache (hd (ka_keys ?s)) (ka_keys ?s @ [?k]) (ka_vnode ?s) =
                (AList.update (ToString (hd (ka_keys ?s))) None ?cache, tl (ka_keys ?s) @ [?k], ?d)"
      unfolding pruneCacheEntry_def Let_def rm old
      by (simp split: option.splits)
    show ?thesis
      unfolding cv pr by (simp add: cache_get_update)
  qed
  from entries bound hit evict show ?thesis by blast
qed

lemma ka_sample_keys:
  "ka_keys (ka_run (new_keep_alive (Some 2)) ka_sample) = [Str ''1::a'', Str ''2::b'']"
  by code_simp

lemma ka_sample_pending:
  "ka_vnodeToCache (ka_run (new_keep_alive (Some 2)) ka_sample) = Some (comp_vnode 3 ''c'' 30)"
  by code_simp

lemma ka_sample_pending_key:
  "ka_keyToCache (ka_run (new_keep_alive (Some 2)) ka_sample) = Str ''3::c''"
  by code_simp

lemma ka_sample_hit:
  "cache_get (ka_cache (ka_run (new_keep_alive (Some 2)) ka_sample)) ''1::a'' =
     Some \<lparr>ce_name = Some ''a'', ce_tag = Some ''vue-component-1-a'', ce_componentInstance = 10\<rparr>"
  by code_simp

lemma ka_sample_screen:
  "ka_vnode (ka_run (new_keep_alive (Some 2)) ka_sample) = Some (comp_vnode 2 ''b'' 20)"
  by code_simp

lemma ka_sample_log: "ka_destroyed (ka_run (new_keep_alive (Some 2)) ka_sample) = []"
  by code_simp

lemma ka_sample_bypass:
  "\<not> bypass (ka_run (new_keep_alive (Some 2)) ka_sample) (Some ''a'')"
  by code_simp

lemma ka_sample_max: "ka_max (ka_run (new_keep_alive (Some 2)) ka_sample) = Some 2"
  by code_simp

lemma ka_sample_events:
  "list_all string_keyed ka_sample" "max_kept (ka_max (new_keep_alive (Some 2))) ka_sample"
  by code_simp+

theorem keep_alive_bounded_lru_witness:
  "ka_vnodeToCache (new_keep_alive (Some 2)) = None \<and>
   list_all string_keyed ka_sample \<and>
   max_kept (ka_max (new_keep_alive (Some 2))) ka_sample \<and>
   ka_max (ka_run (new_keep_alive (Some 2)) ka_sample) = Some 2 \<and> (0::nat) < 2 \<and>
   length (live_entries (ka_cache (ka_run (new_keep_alive (Some 2)) ka_sample))) \<le> 2 \<and>
   ka_keys (fst (render (ka_run (new_keep_alive (Some 2)) ka_sample)
                   (Some (comp_vnode 1 ''a'' 11)) None)) = [Str ''2::b'', Str ''1::a''] \<and>
   ka_keys (cacheVNode (ka_run (new_keep_alive (Some 2)) ka_sample)) = [Str ''2::b'', Str ''3::c''] \<and>
   cache_get (ka_cache (cacheVNode (ka_run (new_keep_alive (Some 2)) ka_sample))) ''1::a'' = None \<and>
   ka_destroyed (cacheVNode (ka_run (new_keep_alive (Some 2)) ka_sample)) = [10]"
proof -
  have fresh: "ka_vnodeToCache (new_keep_alive (Some 2)) = None"
    by (simp add: new_keep_alive_def)
  have p: "(0::nat) < 2" by simp
  have k: "cache_key (comp_vnode 1 ''a'' 11) \<lparr>co_cid = 1, co_name = Some ''a'', co_tag = Some ''a''\<rparr>
             = Str ''1::a''" by code_simp
  have n: "getComponentName (Some \<lparr>co_cid = 1, co_name = Some ''a'', co_tag = Some ''a''\<rparr>)
             = Some ''a''" by code_simp
  have o: "kv_componentOptions (comp_vnode 1 ''a'' 11) =
             Some \<lparr>co_cid = 1, co_name = Some ''a'', co_tag = Some ''a''\<rparr>"
    by (simp add: comp_vnode_def)
  have sk: "string_keyed (Render (Some (comp_vnode 1 ''a'' 11)) None)"
    by (simp add: comp_vnode_def isDef_def)
  have t: "kv_tag (comp_vnode 2 ''b'' 20) \<noteq> Some ''vue-component-1-a''" by code_simp
  let ?s = "ka_run (new_keep_alive (Some 2)) ka_sample"
  let ?co = "\<lparr>co_cid = 1, co_name = Some ''a'', co_tag = Some ''a''\<rparr>"
  let ?e = "\<lparr>ce_name = Some ''a'', ce_tag = Some ''vue-component-1-a'', ce_componentInstance = 10\<rparr>"
  note T = keep_alive_bounded_lru [OF fresh ka_sample_events ka_sample_max p,
             of "comp_vnode 1 ''a'' 11" None ?co ?e "comp_vnode 3 ''c'' 30"]
  have H1: "string_keyed (Render (Some (comp_vnode 1 ''a'' 11)) None) \<and>
            kv_componentOptions (comp_vnode 1 ''a'' 11) = Some ?co \<and>
            \<not> bypass ?s (getComponentName (Some ?co)) \<and>
            cache_get (ka_cache ?s) (ToString (cache_key (comp_vnode 1 ''a'' 11) ?co)) = Some ?e"
    unfolding k n ToString.simps using o sk ka_sample_bypass ka_sample_hit by blast
  have H2: "ka_vnodeToCache ?s = Some (comp_vnode 3 ''c'' 30) \<and> length (ka_keys ?s) = 2"
    unfolding ka_sample_keys using ka_sample_pending by simp
  from T H1 H2
  have C: "length (live_entries (ka_cache ?s)) \<le> 2"
    "ka_keys (fst (render ?s (Some (comp_vnode 1 ''a'' 11)) None)) =
       remove1 (Str ''1::a'') [Str ''1::a'', Str ''2::b''] @ [Str ''1::a'']"
    "ka_keys (cacheVNode ?s) = tl [Str ''1::a'', Str ''2::b''] @ [Str ''3::c'']"
    "cache_get (ka_cache (cacheVNode ?s)) (ToString (hd [Str ''1::a'', Str ''2::b''])) = None"
    "ka_destroyed (cacheVNode ?s) =
       [] @ (if ce_tag ?e \<noteq> kv_tag (comp_vnode 2 ''b'' 20) then [ce_componentInstance ?e] else [])"
    unfolding k ka_sample_keys ka_sample_pending_key ka_sample_screen ka_sample_log
    by (simp_all add: ka_sample_hit)
  from C t fresh ka_sample_events ka_sample_max show ?thesis by simp
qed

text \<open>
  Claim C4 as stated fails. \<open>max\<close> is a prop, and nothing watches it: after two
  components were cached under \<open>max = 2\<close> and \<open>max\<close> was set to \<open>1\<close>, the insertion of a
  third removes one entry, and the cache holds two entries, above \<open>max\<close>. It also fails
  for keys that are numbers: the key \<open>'2'\<close> hits the entry of the key \<open>2\<close> but is not
  found in \<open>keys\<close>, and after the keys \<open>3\<close> and \<open>4\<close> the cache holds two entries under
  \<open>max = 1\<close>.
\<close>

theorem keep_alive_bound_counterexample:
  "ka_max (ka_run (new_keep_alive (Some 2)) lowered_sample) = Some 1 \<and>
   (case last lowered_sample of Updated \<Rightarrow> True | _ \<Rightarrow> False) \<and>
   map fst (live_entries (ka_cache (ka_run (new_keep_alive (Some 2)) lowered_sample))) =
     [''2::b'', ''3::c''] \<and>
   ka_max (ka_run (new_keep_alive (Some 1)) mixed_sample) = Some 1 \<and>
   (case last mixed_sample of Updated \<Rightarrow> True | _ \<Rightarrow> False) \<and>
   map fst (live_entries (ka_cache (ka_run (new_keep_alive (Some 1)) mixed_sample))) =
     [''3'', ''4''] \<and>
   ka_keys (ka_run (new_keep_alive (Some 1)) mixed_sample) = [Num 3, Num 4]"
  by code_simp

subsection \<open>The hook \<open>destroyed\<close>\<close>

lemma destroyed_loop_eq:
  "distinct ks \<Longrightarrow>
   destroyed_loop ks (cache, keys, log) =
     (fold (\<lambda>k c. AList.update k None c) ks cache, fold (\<lambda>k. remove1 (Str k)) ks keys,
      log @ concat (map (\<lambda>k. case cache_get cache k of
                               Some e \<Rightarrow> [ce_componentInstance e] | None \<Rightarrow> []) ks))"
proof (induction ks arbitrary: cache keys log)
  case Nil
  then show ?case by simp
next
  case (Cons k ks)
  from Cons.prems have d: "distinct ks" and k: "k \<notin> set ks" by auto
  have same: "map (\<lambda>x. case cache_get (AList.update k None cache) x of
                         Some e \<Rightarrow> [ce_componentInstance e] | None \<Rightarrow> []) ks =
              map (\<lambda>x. case cache_get cache x of
                         Some e \<Rightarrow> [ce_componentInstance e] | None \<Rightarrow> []) ks"
    using k by (intro map_cong refl) (auto simp: cache_get_update)
  have p: "pruneCacheEntry cache (Str k) keys None =
           (AList.update k None cache, remove1 (Str k) keys,
            case cache_get cache k of Some e \<Rightarrow> [ce_componentInstance e] | None \<Rightarrow> [])"
    by (simp add: pruneCacheEntry_def Let_def split: option.splits)
  show ?case
    by (simp add: p Cons.IH[OF d] same)
qed

lemma cache_get_fold_null:
  "cache_get (fold (\<lambda>k c. AList.update k None c) ks cache) k' =
     (if k' \<in> set ks then None else cache_get cache k')"
  by (induction ks arbitrary: cache) (auto simp: cache_get_update)

lemma distinct_fold_null:
  "distinct (map fst cache) \<Longrightarrow>
   distinct (map fst (fold (\<lambda>k c. AList.update k None c) ks cache))"
  by (induction ks arbitrary: cache) (simp_all add: distinct_update)

lemma fold_remove1_set:
  "distinct keys \<Longrightarrow>
   distinct (fold (\<lambda>k. remove1 (Str k)) ks keys) \<and>
   set (fold (\<lambda>k. remove1 (Str k)) ks keys) = set keys - Str ` set ks"
proof (induction ks arbitrary: keys)
  case Nil
  then show ?case by simp
next
  case (Cons k ks)
  from Cons.prems have "distinct (remove1 (Str k) keys)" by simp
  from Cons.IH[OF this] Cons.prems show ?case by auto
qed

lemma no_live_entries:
  assumes "distinct (map fst c)" and "\<And>k. cache_get c k = None"
  shows "live_entries c = []"
proof -
  from live_entries_keys[OF assms(1)] assms(2)
  have "set (map fst (live_entries c)) = {}" by simp
  then show ?thesis by simp
qed

text \<open>
  What \<open>destroyed\<close> does in every state whose cache has each name once (as every state
  reached from \<open>created\<close> has): \<open>$destroy\<close> is called on the instance of every entry,
  in the order of the \<open>for\<close>-\<open>in\<close> loop; afterwards no name of the cache object has an
  entry; and the key list has lost the strings that name a property of the cache, and
  nothing else.
\<close>

lemma destroyed_effect:
  assumes "distinct (map fst (ka_cache s))"
  shows "live_entries (ka_cache (destroyed s)) = []"
    and "cache_get (ka_cache (destroyed s)) k = None"
    and "ka_destroyed (destroyed s) =
           ka_destroyed s @
           concat (map (\<lambda>k. case cache_get (ka_cache s) k of
                               Some e \<Rightarrow> [ce_componentInstance e] | None \<Rightarrow> [])
                     (for_in (ka_cache s)))"
    and "ka_keys (destroyed s) = fold (\<lambda>k. remove1 (Str k)) (for_in (ka_cache s)) (ka_keys s)"
proof -
  let ?ks = "for_in (ka_cache s)"
  let ?c = "fold (\<lambda>k c. AList.update k None c) ?ks (ka_cache s)"
  have d: "distinct ?ks"
    using assms by (rule for_in_distinct)
  have eq: "destroyed s =
      s\<lparr>ka_cache := ?c, ka_keys := fold (\<lambda>k. remove1 (Str k)) ?ks (ka_keys s),
        ka_destroyed := ka_destroyed s @
           concat (map (\<lambda>k. case cache_get (ka_cache s) k of
                               Some e \<Rightarrow> [ce_componentInstance e] | None \<Rightarrow> []) ?ks)\<rparr>"
    by (simp add: destroyed_def destroyed_loop_eq[OF d])
  have none: "cache_get ?c k' = None" for k'
    using cache_get_notin[of k' "ka_cache s"] by (auto simp: cache_get_fold_null for_in_set)
  show "live_entries (ka_cache (destroyed s)) = []"
    unfolding eq using no_live_entries[OF distinct_fold_null[OF assms] none] by simp
  show "cache_get (ka_cache (destroyed s)) k = None"
    unfolding eq using none by simp
  show "ka_destroyed (destroyed s) =
           ka_destroyed s @
           concat (map (\<lambda>k. case cache_get (ka_cache s) k of
                               Some e \<Rightarrow> [ce_componentInstance e] | None \<Rightarrow> []) ?ks)"
    unfolding eq by simp
  show "ka_keys (destroyed s) = fold (\<lambda>k. remove1 (Str k)) ?ks (ka_keys s)"
    unfolding eq by simp
qed

text \<open>Every state reached from \<open>created\<close> has each name of the cache object once.\<close>

lemma pruneCacheEntry_names:
  "distinct (map fst cache) \<Longrightarrow> distinct (map fst (fst (pruneCacheEntry cache key keys current)))"
  by (simp add: pruneCacheEntry_def Let_def distinct_update)

lemma pruneCache_loop_names:
  "distinct (map fst cache) \<Longrightarrow>
   distinct (map fst (fst (pruneCache_loop ks keep current (cache, keys, log))))"
proof (induction ks arbitrary: cache keys log)
  case Nil
  then show ?case by simp
next
  case (Cons key rest)
  show ?case
  proof (cases "\<exists>entry name. cache_get cache key = Some entry \<and> ce_name entry = Some name
                  \<and> name \<noteq> [] \<and> \<not> keep name")
    case True
    obtain c1 k1 d1 where p: "pruneCacheEntry cache (Str key) keys current = (c1, k1, d1)"
      by (cases "pruneCacheEntry cache (Str key) keys current") auto
    with pruneCacheEntry_names [OF Cons.prems, of "Str key" keys current]
    have "distinct (map fst c1)"
      by simp
    from Cons.IH [OF this] True p show ?thesis
      by auto
  next
    case False
    with Cons.IH [OF Cons.prems] show ?thesis
      by (auto split: option.splits if_splits)
  qed
qed

lemma ka_step_names:
  assumes "distinct (map fst (ka_cache s))"
  shows "distinct (map fst (ka_cache (ka_step s e)))"
proof (cases e)
  case (Render first_child slot0)
  have "ka_cache (fst (render s first_child slot0)) = ka_cache s"
    by (simp add: render_def Let_def split: option.splits)
  with assms Render show ?thesis
    by simp
next
  case (Patch v)
  with assms show ?thesis
    by simp
next
  case Updated
  show ?thesis
  proof (cases "ka_vnodeToCache s")
    case None
    with assms Updated show ?thesis
      by (simp add: cacheVNode_def)
  next
    case (Some v)
    let ?cache = "AList.update (ToString (ka_keyToCache s))
                    (Some \<lparr>ce_name = getComponentName (kv_componentOptions v), ce_tag = kv_tag v,
                           ce_componentInstance = kv_componentInstance v\<rparr>) (ka_cache s)"
    from assms have d: "distinct (map fst ?cache)"
      by (simp add: distinct_update)
    from pruneCacheEntry_names [OF d] d Some Updated show ?thesis
      by (simp add: cacheVNode_def Let_def split: prod.splits) (metis fst_conv)
  qed
next
  case (IncludeChanged p)
  with pruneCache_loop_names [OF assms] show ?thesis
    by (simp add: pruneCache_def split: prod.splits) (metis fst_conv)
next
  case (ExcludeChanged p)
  with pruneCache_loop_names [OF assms] show ?thesis
    by (simp add: pruneCache_def split: prod.splits) (metis fst_conv)
next
  case (MaxChanged new)
  with assms show ?thesis
    by simp
qed

lemma ka_run_names: "distinct (map fst (ka_cache (ka_run s events)))"
proof -
  have "distinct (map fst (ka_cache (foldl ka_step t events)))"
    if "distinct (map fst (ka_cache t))" for t
    using that by (induction events arbitrary: t) (simp_all add: ka_step_names)
  from this [of "created s"] show ?thesis
    by (simp add: ka_run_def created_def)
qed

text \<open>When all keys are strings, the key list is left empty.\<close>

lemma destroyed_string_keys:
  assumes "ka_inv s"
  shows "ka_keys (destroyed s) = []"
proof -
  let ?ks = "for_in (ka_cache s)"
  from assms have d: "distinct (map fst (ka_cache s))" and dk: "distinct (ka_keys s)"
    and sk: "set (ka_keys s) = Str ` {k. cache_get (ka_cache s) k \<noteq> None}"
    by (auto simp: ka_inv_def ck_inv_def)
  have sub: "set (ka_keys s) \<subseteq> Str ` set ?ks"
  proof
    fix x assume "x \<in> set (ka_keys s)"
    with sk obtain k where x: "x = Str k" and live: "cache_get (ka_cache s) k \<noteq> None"
      by auto
    have "k \<in> fst ` set (ka_cache s)"
    proof (rule ccontr)
      assume "k \<notin> fst ` set (ka_cache s)"
      then have "cache_get (ka_cache s) k = None" by (rule cache_get_notin)
      with live show False by simp
    qed
    with x show "x \<in> Str ` set ?ks"
      by (simp add: for_in_set)
  qed
  have "set (fold (\<lambda>k. remove1 (Str k)) ?ks (ka_keys s)) = set (ka_keys s) - Str ` set ?ks"
    using fold_remove1_set[OF dk, of ?ks] by (rule conjunct2)
  also have "\<dots> = {}" using sub by (rule Diff_eq_empty_iff[THEN iffD2])
  finally have "fold (\<lambda>k. remove1 (Str k)) ?ks (ka_keys s) = []" by (rule set_empty[THEN iffD1])
  with destroyed_effect(4) [OF d] show ?thesis
    by simp
qed

text \<open>
  Claim C10, on the code. Two components with the keys \<open>2\<close> and \<open>1\<close> (numbers) are
  cached; the cache object has the properties \<open>2\<close> and \<open>1\<close>, which the \<open>for\<close>-\<open>in\<close>
  loop of \<open>destroyed\<close> visits as the strings \<open>'1'\<close> and \<open>'2'\<close>. \<open>$destroy\<close> is called on
  both instances and no property holds an entry afterwards, but \<open>remove(keys, key)\<close>
  looks for a string in a list of numbers: the key list is left as it was, not empty.
\<close>

theorem destroyed_numeric_keys:
  "ka_keys (ka_run (new_keep_alive None) numeric_sample) = [Num 2, Num 1] \<and>
   map fst (live_entries (ka_cache (ka_run (new_keep_alive None) numeric_sample))) = [''2'', ''1''] \<and>
   for_in (ka_cache (ka_run (new_keep_alive None) numeric_sample)) = [''1'', ''2''] \<and>
   ka_destroyed (destroyed (ka_run (new_keep_alive None) numeric_sample)) = [10, 20] \<and>
   live_entries (ka_cache (destroyed (ka_run (new_keep_alive None) numeric_sample))) = [] \<and>
   ka_keys (destroyed (ka_run (new_keep_alive None) numeric_sample)) = [Num 2, Num 1]"
  by code_simp
section \<open>Proofs: scheduler\<close>

subsection \<open>The place of a watcher spliced into a queue that is being flushed\<close>

lemma splice_index_props:
  "i < int (length q) \<Longrightarrow>
   splice_index q idx w i \<le> i \<and>
   (int idx \<le> i \<longrightarrow> int idx \<le> splice_index q idx w i) \<and>
   (\<forall>p. splice_index q idx w i < p \<and> p \<le> i \<longrightarrow> w_id w < w_id (q ! nat p)) \<and>
   (int idx < splice_index q idx w i \<longrightarrow> w_id (q ! nat (splice_index q idx w i)) \<le> w_id w)"
proof (induction q idx w i rule: splice_index.induct)
  case (1 q idx w i)
  show ?case
  proof (cases "i > int idx \<and> w_id (q ! nat i) > w_id w")
    case True
    then have eq: "splice_index q idx w i = splice_index q idx w (i - 1)"
      by (subst splice_index.simps) auto
    from "1.prems" have "i - 1 < int (length q)" by simp
    from "1.IH"[OF True this] have ih:
      "splice_index q idx w (i - 1) \<le> i - 1"
      "int idx \<le> i - 1 \<longrightarrow> int idx \<le> splice_index q idx w (i - 1)"
      "\<forall>p. splice_index q idx w (i - 1) < p \<and> p \<le> i - 1 \<longrightarrow> w_id w < w_id (q ! nat p)"
      "int idx < splice_index q idx w (i - 1) \<longrightarrow>
         w_id (q ! nat (splice_index q idx w (i - 1))) \<le> w_id w"
      by auto
    have "\<forall>p. splice_index q idx w (i - 1) < p \<and> p \<le> i \<longrightarrow> w_id w < w_id (q ! nat p)"
    proof (intro allI impI)
      fix p assume p: "splice_index q idx w (i - 1) < p \<and> p \<le> i"
      show "w_id w < w_id (q ! nat p)"
      proof (cases "p = i")
        case True with \<open>i > int idx \<and> w_id (q ! nat i) > w_id w\<close> show ?thesis by simp
      next
        case False with p ih(3) show ?thesis by auto
      qed
    qed
    with ih True show ?thesis unfolding eq by auto
  next
    case False
    then have eq: "splice_index q idx w i = i"
      by (subst splice_index.simps) auto
    from False show ?thesis unfolding eq by auto
  qed
qed

lemma splice_pos_props:
  assumes "idx < length q"
  shows "idx < splice_pos q idx w" and "splice_pos q idx w \<le> length q"
    and "\<forall>p. splice_pos q idx w \<le> p \<and> p < length q \<longrightarrow> w_id w < w_id (q ! p)"
    and "Suc idx < splice_pos q idx w \<longrightarrow> w_id (q ! (splice_pos q idx w - 1)) \<le> w_id w"
proof -
  let ?r = "splice_index q idx w (int (length q) - 1)"
  have lt: "int (length q) - 1 < int (length q)" by simp
  from assms have ge: "int idx \<le> int (length q) - 1" by simp
  from splice_index_props[OF lt, of idx w] ge
  have r: "?r \<le> int (length q) - 1" "int idx \<le> ?r"
    "\<forall>p. ?r < p \<and> p \<le> int (length q) - 1 \<longrightarrow> w_id w < w_id (q ! nat p)"
    "int idx < ?r \<longrightarrow> w_id (q ! nat ?r) \<le> w_id w"
    by auto
  show "idx < splice_pos q idx w" using r(2) by (simp add: splice_pos_def)
  show "splice_pos q idx w \<le> length q" using r(1) by (simp add: splice_pos_def)
  show "\<forall>p. splice_pos q idx w \<le> p \<and> p < length q \<longrightarrow> w_id w < w_id (q ! p)"
  proof (intro allI impI)
    fix p assume "splice_pos q idx w \<le> p \<and> p < length q"
    then have "?r < int p \<and> int p \<le> int (length q) - 1"
      using r(2) by (auto simp: splice_pos_def)
    with r(3) have "w_id w < w_id (q ! nat (int p))" by blast
    then show "w_id w < w_id (q ! p)" by simp
  qed
  show "Suc idx < splice_pos q idx w \<longrightarrow> w_id (q ! (splice_pos q idx w - 1)) \<le> w_id w"
  proof
    assume "Suc idx < splice_pos q idx w"
    then have "int idx < ?r" by (simp add: splice_pos_def)
    with r(4) have "w_id (q ! nat ?r) \<le> w_id w" by simp
    moreover have "splice_pos q idx w - 1 = nat ?r" using r(2) by (simp add: splice_pos_def)
    ultimately show "w_id (q ! (splice_pos q idx w - 1)) \<le> w_id w" by simp
  qed
qed

subsection \<open>What one call of \<open>queueWatcher\<close> does\<close>

lemma queueWatcher_pending:
  "has s (w_id w) \<noteq> None \<Longrightarrow> queueWatcher cfg s w = (s, NoFlush)"
  by (auto simp: queueWatcher_def Let_def)


lemma queueWatcher_flushing:
  assumes "has s (w_id w) = None" and "flushing s"
  shows "queue (fst (queueWatcher cfg s w)) =
           take (splice_pos (queue s) (index s) w) (queue s) @ [w]
             @ drop (splice_pos (queue s) (index s) w) (queue s)"
    and "has (fst (queueWatcher cfg s w)) = (has s)(w_id w := Some True)"
  using assms by (simp_all add: queueWatcher_def Let_def splice_pos_def)

lemma queueWatcher_fields:
  "flushing (fst (queueWatcher cfg s w)) = flushing s"
  "index (fst (queueWatcher cfg s w)) = index s"
  "ran (fst (queueWatcher cfg s w)) = ran s"
  "warnings (fst (queueWatcher cfg s w)) = warnings s"
  "circular (fst (queueWatcher cfg s w)) = circular s"
  by (simp_all add: queueWatcher_def Let_def)

lemma queueWatcher_waiting:
  "waiting s \<Longrightarrow> snd (queueWatcher cfg s w) = NoFlush \<and> waiting (fst (queueWatcher cfg s w))"
  by (simp add: queueWatcher_def Let_def)

subsection \<open>Calls made while the queue is flushed\<close>

lemma sorted_ids: "sorted (map w_id xs) = sorted_wrt (\<lambda>a b. w_id a \<le> w_id b) xs"
  by (simp add: sorted_map)

lemma splice_sorted:
  assumes idx: "idx < length q" and srt: "sorted (map w_id (drop (Suc idx) q))"
  shows "sorted (map w_id (drop (Suc idx) (take (splice_pos q idx w) q) @ [w]
                             @ drop (splice_pos q idx w) q))"
proof -
  let ?j = "splice_pos q idx w"
  let ?R = "\<lambda>a b. w_id a \<le> w_id b"
  from splice_pos_props[OF idx, of w]
  have j1: "idx < ?j" and j2: "?j \<le> length q"
    and big: "\<forall>p. ?j \<le> p \<and> p < length q \<longrightarrow> w_id w < w_id (q ! p)"
    and small: "Suc idx < ?j \<longrightarrow> w_id (q ! (?j - 1)) \<le> w_id w"
    by auto
  have P: "sorted_wrt ?R (drop (Suc idx) q)" using srt by (simp only: sorted_ids)
  have mono: "w_id (q ! a) \<le> w_id (q ! b)" if "Suc idx \<le> a" "a < b" "b < length q" for a b
  proof -
    from that have "a - Suc idx < b - Suc idx" "b - Suc idx < length (drop (Suc idx) q)" by auto
    from sorted_wrt_nth_less[OF P this]
    have "w_id (drop (Suc idx) q ! (a - Suc idx)) \<le> w_id (drop (Suc idx) q ! (b - Suc idx))" .
    moreover have "drop (Suc idx) q ! (a - Suc idx) = q ! a" using that by simp
    moreover have "drop (Suc idx) q ! (b - Suc idx) = q ! b" using that by simp
    ultimately show ?thesis by simp
  qed
  have A: "sorted_wrt ?R (drop (Suc idx) (take ?j q))"
    unfolding drop_take using P by (rule sorted_wrt_take)
  have "drop ?j q = drop (?j - Suc idx) (drop (Suc idx) q)" using j1 by simp
  then have B: "sorted_wrt ?R (drop ?j q)" using sorted_wrt_drop[OF P] by simp
  have Aw: "w_id a \<le> w_id w" if "a \<in> set (drop (Suc idx) (take ?j q))" for a
  proof -
    from that obtain p where p: "p < length (drop (Suc idx) (take ?j q))"
      and a: "a = drop (Suc idx) (take ?j q) ! p" by (auto simp: in_set_conv_nth)
    from p j2 have lt: "Suc idx + p < ?j" by simp
    with a j2 have a': "a = q ! (Suc idx + p)" by simp
    from lt have "Suc idx < ?j" by simp
    with small have l: "w_id (q ! (?j - 1)) \<le> w_id w" by simp
    show ?thesis
    proof (cases "Suc idx + p = ?j - 1")
      case True with l a' show ?thesis by simp
    next
      case False
      with lt j2 have "Suc idx + p < ?j - 1" "?j - 1 < length q" by auto
      from mono[OF _ this] l a' show ?thesis by simp
    qed
  qed
  have wB: "w_id w < w_id b" if "b \<in> set (drop ?j q)" for b
  proof -
    from that obtain p where "p < length (drop ?j q)" "b = drop ?j q ! p"
      by (auto simp: in_set_conv_nth)
    then have "?j + p < length q" "b = q ! (?j + p)" by simp_all
    with big show ?thesis by simp
  qed
  have "sorted_wrt ?R (drop (Suc idx) (take ?j q) @ [w] @ drop ?j q)"
    using A B Aw wB by (fastforce simp: sorted_wrt_append)
  then show ?thesis by (simp only: sorted_ids)
qed

text \<open>
  While the queue is flushed and the index is inside it, a call of \<open>queueWatcher\<close> leaves
  the part of the queue up to the index as it is and puts the watcher, if it is not pending
  already, somewhere in the part after the index.
\<close>

lemma queueWatcher_flush:
  assumes f: "flushing s" and i: "index s < length (queue s)"
  shows "take (Suc (index s)) (queue (fst (queueWatcher cfg s w))) = take (Suc (index s)) (queue s)"
    and "\<exists>A B. drop (Suc (index s)) (queue s) = A @ B \<and>
               drop (Suc (index s)) (queue (fst (queueWatcher cfg s w))) =
                 A @ (if has s (w_id w) = None then [w] else []) @ B"
    and "sorted (map w_id (drop (Suc (index s)) (queue s))) \<Longrightarrow>
         sorted (map w_id (drop (Suc (index s)) (queue (fst (queueWatcher cfg s w)))))"
    and "index s < length (queue (fst (queueWatcher cfg s w)))"
proof -
  let ?j = "splice_pos (queue s) (index s) w"
  let ?q' = "queue (fst (queueWatcher cfg s w))"
  from splice_pos_props[OF i, of w]
  have j1: "index s < ?j" and j2: "?j \<le> length (queue s)" by auto
  show "take (Suc (index s)) ?q' = take (Suc (index s)) (queue s)"
  proof (cases "has s (w_id w) = None")
    case True
    show ?thesis unfolding queueWatcher_flushing(1)[OF True f] using j1 j2 by simp
  next
    case False then show ?thesis by (simp add: queueWatcher_pending)
  qed
  have dr: "drop (Suc (index s)) ?q' =
              drop (Suc (index s)) (take ?j (queue s)) @ [w] @ drop ?j (queue s)"
    if "has s (w_id w) = None"
    unfolding queueWatcher_flushing(1)[OF that f] using j1 j2 by simp
  show "\<exists>A B. drop (Suc (index s)) (queue s) = A @ B \<and>
               drop (Suc (index s)) ?q' = A @ (if has s (w_id w) = None then [w] else []) @ B"
  proof (cases "has s (w_id w) = None")
    case True
    have "drop (Suc (index s)) (queue s) =
            drop (Suc (index s)) (take ?j (queue s)) @ drop ?j (queue s)"
      using j1 by (metis Suc_leI append_take_drop_id drop_append drop_take length_take
                     min.absorb2 j2 diff_is_0_eq' drop0)
    with dr[OF True] True show ?thesis by auto
  next
    case False
    then have "?q' = queue s" by (simp add: queueWatcher_pending)
    with False show ?thesis by auto
  qed
  show "sorted (map w_id (drop (Suc (index s)) ?q'))"
    if "sorted (map w_id (drop (Suc (index s)) (queue s)))"
  proof (cases "has s (w_id w) = None")
    case True
    show ?thesis unfolding dr[OF True] using splice_sorted[OF i that] .
  next
    case False
    then show ?thesis using that by (simp add: queueWatcher_pending)
  qed
  show "index s < length ?q'"
  proof (cases "has s (w_id w) = None")
    case True
    show ?thesis unfolding queueWatcher_flushing(1)[OF True f] using i by simp
  next
    case False then show ?thesis using i by (simp add: queueWatcher_pending)
  qed
qed

lemma queueActivatedComponent_fields:
  "queue (queueActivatedComponent s vm) = queue s"
  "flushing (queueActivatedComponent s vm) = flushing s"
  "index (queueActivatedComponent s vm) = index s"
  "ran (queueActivatedComponent s vm) = ran s"
  "warnings (queueActivatedComponent s vm) = warnings s"
  "circular (queueActivatedComponent s vm) = circular s"
  "has (queueActivatedComponent s vm) = has s"
  by (simp_all add: queueActivatedComponent_def)

lemma enqueued_simps [simp]:
  "enqueued [] = {}"
  "enqueued (QueueWatcher w # cs) = insert w (enqueued cs)"
  "enqueued (QueueActivated vm # cs) = enqueued cs"
  by (auto simp: enqueued_def)

lemma apply_calls_flush:
  "flushing s \<Longrightarrow> index s < length (queue s) \<Longrightarrow>
   flushing (apply_calls cfg s calls) \<and>
   index (apply_calls cfg s calls) = index s \<and>
   index s < length (queue (apply_calls cfg s calls)) \<and>
   take (Suc (index s)) (queue (apply_calls cfg s calls)) = take (Suc (index s)) (queue s) \<and>
   ran (apply_calls cfg s calls) = ran s \<and>
   warnings (apply_calls cfg s calls) = warnings s \<and>
   circular (apply_calls cfg s calls) = circular s \<and>
   (sorted (map w_id (drop (Suc (index s)) (queue s))) \<longrightarrow>
      sorted (map w_id (drop (Suc (index s)) (queue (apply_calls cfg s calls))))) \<and>
   (k \<notin> w_id ` enqueued calls \<longrightarrow>
      count_list (map w_id (drop (Suc (index s)) (queue (apply_calls cfg s calls)))) k =
      count_list (map w_id (drop (Suc (index s)) (queue s))) k) \<and>
   set (drop (Suc (index s)) (queue (apply_calls cfg s calls)))
     \<subseteq> set (drop (Suc (index s)) (queue s)) \<union> enqueued calls"
proof (induction calls arbitrary: s)
  case Nil
  then show ?case by simp
next
  case (Cons c calls)
  show ?case
  proof (cases c)
    case (QueueActivated vm)
    let ?s1 = "queueActivatedComponent s vm"
    from Cons.prems have "flushing ?s1" "index ?s1 < length (queue ?s1)"
      by (simp_all add: queueActivatedComponent_fields)
    from Cons.IH[OF this] show ?thesis
      unfolding QueueActivated by (simp add: queueActivatedComponent_fields)
  next
    case (QueueWatcher w)
    let ?s1 = "fst (queueWatcher cfg s w)"
    note q = queueWatcher_flush[OF Cons.prems, of cfg w]
    have f1: "flushing ?s1" and i1: "index ?s1 = index s"
      using Cons.prems by (simp_all add: queueWatcher_fields)
    from q(4) i1 have l1: "index ?s1 < length (queue ?s1)" by simp
    note ih = Cons.IH[OF f1 l1, unfolded i1]
    from q(2) obtain A B where ab: "drop (Suc (index s)) (queue s) = A @ B"
      "drop (Suc (index s)) (queue ?s1) = A @ (if has s (w_id w) = None then [w] else []) @ B"
      by blast
    have cnt: "count_list (map w_id (drop (Suc (index s)) (queue ?s1))) k =
               count_list (map w_id (drop (Suc (index s)) (queue s))) k" if "w_id w \<noteq> k"
      unfolding ab using that by simp
    have sub: "set (drop (Suc (index s)) (queue ?s1))
                 \<subseteq> insert w (set (drop (Suc (index s)) (queue s)))"
      unfolding ab by auto
    show ?thesis
      unfolding QueueWatcher apply_calls.simps enqueued_simps
      using ih q(1) q(3) cnt sub
      by (auto simp: queueWatcher_fields)
  qed
qed

lemma run_watcher_flush:
  assumes f: "flushing s" and i: "index s < length (queue s)"
  shows
   "flushing (fst (run_watcher prog cfg (s, u))) \<and>
    index (fst (run_watcher prog cfg (s, u))) = index s \<and>
    index s < length (queue (fst (run_watcher prog cfg (s, u)))) \<and>
    take (Suc (index s)) (queue (fst (run_watcher prog cfg (s, u)))) = take (Suc (index s)) (queue s) \<and>
    ran (fst (run_watcher prog cfg (s, u))) = ran s @ [w_id (queue s ! index s)] \<and>
    warnings (fst (run_watcher prog cfg (s, u))) = warnings s \<and>
    circular (fst (run_watcher prog cfg (s, u))) = circular s \<and>
    (sorted (map w_id (drop (Suc (index s)) (queue s))) \<longrightarrow>
       sorted (map w_id (drop (Suc (index s)) (queue (fst (run_watcher prog cfg (s, u))))))) \<and>
    (k \<notin> w_id ` calls_of prog (queue s ! index s) \<longrightarrow>
       count_list (map w_id (drop (Suc (index s)) (queue (fst (run_watcher prog cfg (s, u)))))) k =
       count_list (map w_id (drop (Suc (index s)) (queue s))) k) \<and>
    set (drop (Suc (index s)) (queue (fst (run_watcher prog cfg (s, u)))))
      \<subseteq> set (drop (Suc (index s)) (queue s)) \<union> calls_of prog (queue s ! index s)"
proof -
  let ?w = "queue s ! index s"
  obtain s1 u1 where b: "(case before prog ?w of
                          Some hook \<Rightarrow> (case hook u of (calls, u') \<Rightarrow> (apply_calls cfg s calls, u'))
                        | None \<Rightarrow> (s, u)) = (s1, u1)"
    by (cases "case before prog ?w of
                          Some hook \<Rightarrow> (case hook u of (calls, u') \<Rightarrow> (apply_calls cfg s calls, u'))
                        | None \<Rightarrow> (s, u)") auto
  have "\<exists>calls. s1 = apply_calls cfg s calls \<and> enqueued calls \<subseteq> calls_of prog ?w"
  proof (cases "before prog ?w")
    case None
    with b have "s1 = apply_calls cfg s []" by simp
    then show ?thesis by (metis enqueued_simps(1) empty_subsetI)
  next
    case (Some hook)
    obtain calls u' where h: "hook u = (calls, u')" by (cases "hook u") auto
    with Some b have "s1 = apply_calls cfg s calls" by simp
    moreover have "enqueued calls \<subseteq> calls_of prog ?w"
    proof
      fix c assume "c \<in> enqueued calls"
      then have "QueueWatcher c \<in> set (fst (hook u))" using h by (simp add: enqueued_def)
      with Some show "c \<in> calls_of prog ?w" unfolding calls_of_def by blast
    qed
    ultimately show ?thesis by blast
  qed
  then obtain calls1 where c1: "s1 = apply_calls cfg s calls1"
    and e1: "enqueued calls1 \<subseteq> calls_of prog ?w" by blast
  let ?P = "\<lambda>t. drop (Suc (index s)) (queue t)"
  from apply_calls_flush[OF f i, of cfg calls1 k, folded c1]
  have a1: "flushing s1" "index s1 = index s" "index s < length (queue s1)"
    "take (Suc (index s)) (queue s1) = take (Suc (index s)) (queue s)"
    "ran s1 = ran s" "warnings s1 = warnings s" "circular s1 = circular s"
    "sorted (map w_id (?P s)) \<longrightarrow> sorted (map w_id (?P s1))"
    "k \<notin> w_id ` enqueued calls1 \<longrightarrow>
       count_list (map w_id (?P s1)) k = count_list (map w_id (?P s)) k"
    "set (?P s1) \<subseteq> set (?P s) \<union> enqueued calls1"
    by blast+
  obtain calls2 u2 where r: "run prog ?w u1 = (calls2, u2)" by (cases "run prog ?w u1") auto
  have e2: "enqueued calls2 \<subseteq> calls_of prog ?w"
  proof
    fix c assume "c \<in> enqueued calls2"
    then have "QueueWatcher c \<in> set (fst (run prog ?w u1))" using r by (simp add: enqueued_def)
    then show "c \<in> calls_of prog ?w" unfolding calls_of_def by blast
  qed
  let ?s2 = "s1\<lparr>has := (has s1)(w_id ?w := None), ran := ran s1 @ [w_id ?w]\<rparr>"
  let ?s3 = "apply_calls cfg ?s2 calls2"
  have res: "fst (run_watcher prog cfg (s, u)) = ?s3"
    using b r by (simp add: run_watcher_def Let_def)
  have sel: "index ?s2 = index s" "queue ?s2 = queue s1" "ran ?s2 = ran s @ [w_id ?w]"
    "warnings ?s2 = warnings s" "circular ?s2 = circular s" "flushing ?s2 = flushing s1"
    using a1 by simp_all
  from a1 have f2: "flushing ?s2" and i2: "index ?s2 < length (queue ?s2)" by simp_all
  from apply_calls_flush[OF f2 i2, of cfg calls2 k, unfolded sel]
  have a2: "flushing ?s3" "index ?s3 = index s" "index s < length (queue ?s3)"
    "take (Suc (index s)) (queue ?s3) = take (Suc (index s)) (queue s1)"
    "ran ?s3 = ran s @ [w_id ?w]" "warnings ?s3 = warnings s" "circular ?s3 = circular s"
    "sorted (map w_id (?P s1)) \<longrightarrow> sorted (map w_id (?P ?s3))"
    "k \<notin> w_id ` enqueued calls2 \<longrightarrow>
       count_list (map w_id (?P ?s3)) k = count_list (map w_id (?P s1)) k"
    "set (?P ?s3) \<subseteq> set (?P s1) \<union> enqueued calls2"
    by blast+
  have srt: "sorted (map w_id (?P s)) \<longrightarrow> sorted (map w_id (?P ?s3))"
    using a1(8) a2(8) by blast
  have cnt: "k \<notin> w_id ` calls_of prog ?w \<longrightarrow>
       count_list (map w_id (?P ?s3)) k = count_list (map w_id (?P s)) k"
  proof
    assume "k \<notin> w_id ` calls_of prog ?w"
    with e1 e2 have "k \<notin> w_id ` enqueued calls1" "k \<notin> w_id ` enqueued calls2" by auto
    with a1(9) a2(9) show "count_list (map w_id (?P ?s3)) k = count_list (map w_id (?P s)) k"
      by simp
  qed
  have sub: "set (?P ?s3) \<subseteq> set (?P s) \<union> calls_of prog ?w"
    using a1(10) a2(10) e1 e2 by blast
  have tk: "take (Suc (index s)) (queue ?s3) = take (Suc (index s)) (queue s)"
    using a1(4) a2(4) by simp
  show ?thesis
    unfolding res
    using a2(1,2,3) tk a2(5,6,7) srt cnt sub by (intro conjI)
qed

subsection \<open>One turn of the loop, and the loop\<close>

lemma flush_turn_Next:
  assumes "flush_turn prog cfg (s, u) = Next (s', u')"
  shows "index s < length (queue s)"
    and "queue s' = queue (fst (run_watcher prog cfg (s, u)))"
    and "ran s' = ran (fst (run_watcher prog cfg (s, u)))"
    and "index s' = Suc (index (fst (run_watcher prog cfg (s, u))))"
    and "flushing s' = flushing (fst (run_watcher prog cfg (s, u)))"
    and "warnings s' = warnings (fst (run_watcher prog cfg (s, u)))"
  using assms
  by (auto simp: flush_turn_def Let_def split: if_splits prod.splits)

lemma flush_turn_Stop:
  assumes "flush_turn prog cfg (s, u) = Stop (s', u')"
  shows "(\<not> index s < length (queue s) \<and> s' = s \<and> u' = u) \<or>
         (index s < length (queue s) \<and> \<not> sc_production cfg \<and>
          queue s' = queue (fst (run_watcher prog cfg (s, u))) \<and>
          ran s' = ran (fst (run_watcher prog cfg (s, u))) \<and>
          index s' = index (fst (run_watcher prog cfg (s, u))) \<and>
          flushing s' = flushing (fst (run_watcher prog cfg (s, u))) \<and>
          warnings s' = warnings (fst (run_watcher prog cfg (s, u))) @
             [(runaway_message (queue s ! index s), w_vm (queue s ! index s))])"
  using assms
  by (auto simp: flush_turn_def Let_def split: if_splits prod.splits)

lemma sorted_drop_Suc:
  "sorted (map w_id (drop n q)) \<Longrightarrow> sorted (map w_id (drop (Suc n) q))"
  by (metis drop_Suc tl_drop sorted_tl map_tl)

lemma flush_turn_sorted:
  assumes "head_sorted s"
  shows "case flush_turn prog cfg (s, u) of
           Next (s', u') \<Rightarrow> head_sorted s'
         | Stop (s', u') \<Rightarrow> sorted (map w_id (drop (Suc (index s')) (queue s')))"
proof (cases "flush_turn prog cfg (s, u)")
  case (Next su')
  obtain s' u' where su': "su' = (s', u')" by (cases su')
  note n = flush_turn_Next[OF Next[unfolded su']]
  from assms have f: "flushing s" and srt: "sorted (map w_id (drop (Suc (index s)) (queue s)))"
    by (auto simp: head_sorted_def intro: sorted_drop_Suc)
  from run_watcher_flush[OF f n(1), of prog cfg u 0] srt n
  have "head_sorted s'" by (simp add: head_sorted_def)
  then show ?thesis by (simp add: Next su')
next
  case (Stop su')
  obtain s' u' where su': "su' = (s', u')" by (cases su')
  from flush_turn_Stop[OF Stop[unfolded su']]
  show ?thesis
  proof
    assume "\<not> index s < length (queue s) \<and> s' = s \<and> u' = u"
    then show ?thesis by (simp add: Stop su')
  next
    assume a: "index s < length (queue s) \<and> \<not> sc_production cfg \<and>
          queue s' = queue (fst (run_watcher prog cfg (s, u))) \<and>
          ran s' = ran (fst (run_watcher prog cfg (s, u))) \<and>
          index s' = index (fst (run_watcher prog cfg (s, u))) \<and>
          flushing s' = flushing (fst (run_watcher prog cfg (s, u))) \<and>
          warnings s' = warnings (fst (run_watcher prog cfg (s, u))) @
             [(runaway_message (queue s ! index s), w_vm (queue s ! index s))]"
    from assms have f: "flushing s" and srt: "sorted (map w_id (drop (Suc (index s)) (queue s)))"
      by (auto simp: head_sorted_def intro: sorted_drop_Suc)
    from a have i: "index s < length (queue s)" by simp
    from run_watcher_flush[OF f i, of prog cfg u 0] srt a
    show ?thesis by (simp add: Stop su')
  qed
qed

lemma flush_loop_sorted:
  "head_sorted s \<Longrightarrow>
   (case flush_loop prog cfg n (s, u) of
      OutOfFuel (s', u') \<Rightarrow> head_sorted s'
    | Done (s', u') \<Rightarrow> sorted (map w_id (drop (Suc (index s')) (queue s'))))"
proof (induction n arbitrary: s u)
  case 0
  then show ?case by simp
next
  case (Suc n)
  show ?case
  proof (cases "flush_turn prog cfg (s, u)")
    case (Next su')
    obtain s' u' where su': "su' = (s', u')" by (cases su')
    from flush_turn_sorted[OF Suc.prems, of prog cfg u] Next su' have "head_sorted s'" by simp
    from Suc.IH[OF this, of u'] show ?thesis by (simp add: Next su')
  next
    case (Stop su')
    obtain s' u' where su': "su' = (s', u')" by (cases su')
    from flush_turn_sorted[OF Suc.prems, of prog cfg u] Stop su' show ?thesis by simp
  qed
qed

lemma head_sorted_start: "head_sorted (flush_start s)"
  by (simp add: head_sorted_def flush_start_def)

subsection \<open>How often a watcher runs in one flush\<close>

lemma drop_index_Cons:
  "i < length q \<Longrightarrow> drop i q = q ! i # drop (Suc i) q"
  by (simp add: Cons_nth_drop_Suc)






subsection \<open>Calls of \<open>queueWatcher\<close> between two flushes\<close>





subsection \<open>The order of the runs\<close>

lemma flush_turn_run_sorted:
  assumes inv: "run_sorted s"
      and mono: "\<forall>w. \<forall>c \<in> calls_of prog w. w_id w \<le> w_id c"
  shows "case flush_turn prog cfg (s, u) of
           Next (s', u') \<Rightarrow> run_sorted s'
         | Stop (s', u') \<Rightarrow> sorted (ran s')"
proof -
  from inv have hs: "head_sorted s" and sr: "sorted (ran s)"
    and le: "\<forall>a \<in> set (ran s). \<forall>b \<in> set (drop (index s) (queue s)). a \<le> w_id b"
    by (auto simp: run_sorted_def)
  from hs have f: "flushing s" and so: "sorted (map w_id (drop (index s) (queue s)))"
    by (auto simp: head_sorted_def)
  let ?w = "queue s ! index s"
  let ?rw = "fst (run_watcher prog cfg (s, u))"
  have step: "sorted (ran ?rw) \<and>
              (\<forall>a \<in> set (ran ?rw). \<forall>b \<in> set (drop (Suc (index s)) (queue ?rw)). a \<le> w_id b)"
    if i: "index s < length (queue s)"
  proof -
    note d = drop_index_Cons[OF i]
    from run_watcher_flush[OF f i, of prog cfg u 0]
    have r: "ran ?rw = ran s @ [w_id ?w]"
      and sub: "set (drop (Suc (index s)) (queue ?rw))
                  \<subseteq> set (drop (Suc (index s)) (queue s)) \<union> calls_of prog ?w"
      by simp_all
    from le d have le_w: "\<forall>a \<in> set (ran s). a \<le> w_id ?w" by simp
    from so d have w_le: "\<forall>b \<in> set (drop (Suc (index s)) (queue s)). w_id ?w \<le> w_id b"
      by simp
    have all: "w_id ?w \<le> w_id b" if "b \<in> set (drop (Suc (index s)) (queue ?rw))" for b
      using that sub w_le mono by blast
    have "sorted (ran s @ [w_id ?w])" using sr le_w by (simp add: sorted_append)
    moreover have "a \<le> w_id b"
      if "a \<in> set (ran s @ [w_id ?w])" "b \<in> set (drop (Suc (index s)) (queue ?rw))" for a b
    proof -
      from that(1) le_w have "a \<le> w_id ?w" by auto
      with all[OF that(2)] show ?thesis by simp
    qed
    ultimately show ?thesis unfolding r by blast
  qed
  show ?thesis
  proof (cases "flush_turn prog cfg (s, u)")
    case (Next su')
    obtain s' u' where su': "su' = (s', u')" by (cases su')
    note n = flush_turn_Next[OF Next[unfolded su']]
    from flush_turn_sorted[OF hs, of prog cfg u] Next su' have "head_sorted s'" by simp
    moreover from run_watcher_flush[OF f n(1), of prog cfg u 0]
    have "index ?rw = index s" by simp
    ultimately have "run_sorted s'"
      unfolding run_sorted_def using step[OF n(1)] n by simp
    then show ?thesis by (simp add: Next su')
  next
    case (Stop su')
    obtain s' u' where su': "su' = (s', u')" by (cases su')
    from flush_turn_Stop[OF Stop[unfolded su']] show ?thesis
    proof
      assume "\<not> index s < length (queue s) \<and> s' = s \<and> u' = u"
      with sr show ?thesis by (simp add: Stop su')
    next
      assume a: "index s < length (queue s) \<and> \<not> sc_production cfg \<and>
          queue s' = queue (fst (run_watcher prog cfg (s, u))) \<and>
          ran s' = ran (fst (run_watcher prog cfg (s, u))) \<and>
          index s' = index (fst (run_watcher prog cfg (s, u))) \<and>
          flushing s' = flushing (fst (run_watcher prog cfg (s, u))) \<and>
          warnings s' = warnings (fst (run_watcher prog cfg (s, u))) @
             [(runaway_message (queue s ! index s), w_vm (queue s ! index s))]"
      then have i: "index s < length (queue s)" by simp
      from step[OF i] a show ?thesis by (simp add: Stop su')
    qed
  qed
qed

lemma flush_loop_run_sorted:
  "run_sorted s \<Longrightarrow> \<forall>w. \<forall>c \<in> calls_of prog w. w_id w \<le> w_id c \<Longrightarrow>
   sorted (ran (fst (outcome_state (flush_loop prog cfg n (s, u)))))"
proof (induction n arbitrary: s u)
  case 0
  then show ?case by (simp add: run_sorted_def)
next
  case (Suc n)
  show ?case
  proof (cases "flush_turn prog cfg (s, u)")
    case (Next su')
    obtain s' u' where su': "su' = (s', u')" by (cases su')
    from flush_turn_run_sorted[OF Suc.prems, of cfg u] Next su' have "run_sorted s'" by simp
    from Suc.IH[OF this Suc.prems(2), of u'] show ?thesis by (simp add: Next su')
  next
    case (Stop su')
    obtain s' u' where su': "su' = (s', u')" by (cases su')
    from flush_turn_run_sorted[OF Suc.prems, of cfg u] Stop su' show ?thesis by simp
  qed
qed

text \<open>
  Claim C2, as the code has it. \<open>flushSchedulerQueue\<close> first sorts the queue ascending by
  watcher id. A watcher that \<open>queueWatcher\<close> accepts while the queue is flushed is spliced
  in after the running index, at a place that keeps the watchers after the index in
  ascending order of id, and the part of the queue up to the index is untouched.
  So at the head of every turn of the loop the watchers still to run, the next one
  included, are in ascending order of id. The runs of one flush are in ascending order of
  id when no hook or run enqueues a watcher with a smaller id than that of the watcher
  that is running; the claim as stated leaves this condition out (a watcher with a
  smaller id that is enqueued during the flush runs next, after a watcher with a larger
  id).
\<close>

theorem flush_order:
  "sorted (map w_id (queue (flush_start s))) \<and> index (flush_start s) = 0 \<and>
   (flushing t \<and> index t < length (queue t) \<and> has t (w_id w) = None \<and>
    sorted (map w_id (drop (Suc (index t)) (queue t))) \<longrightarrow>
      (\<exists>A B. drop (Suc (index t)) (queue t) = A @ B \<and>
             queue (fst (queueWatcher cfg t w)) = take (Suc (index t)) (queue t) @ A @ [w] @ B \<and>
             sorted (map w_id (A @ [w] @ B)))) \<and>
   (case flush_loop prog cfg n (flush_start s, u) of
      OutOfFuel (s', u') \<Rightarrow> sorted (map w_id (drop (index s') (queue s')))
    | Done (s', u') \<Rightarrow> sorted (map w_id (drop (Suc (index s')) (queue s')))) \<and>
   ((\<forall>x. \<forall>c \<in> calls_of prog x. w_id x \<le> w_id c) \<and> ran s = [] \<longrightarrow>
      sorted (ran (fst (outcome_state (flush_loop prog cfg n (flush_start s, u))))))"
proof -
  have a: "sorted (map w_id (queue (flush_start s))) \<and> index (flush_start s) = 0"
    by (simp add: flush_start_def)
  have b: "\<exists>A B. drop (Suc (index t)) (queue t) = A @ B \<and>
             queue (fst (queueWatcher cfg t w)) = take (Suc (index t)) (queue t) @ A @ [w] @ B \<and>
             sorted (map w_id (A @ [w] @ B))"
    if h: "flushing t \<and> index t < length (queue t) \<and> has t (w_id w) = None \<and>
           sorted (map w_id (drop (Suc (index t)) (queue t)))"
  proof -
    from h have f: "flushing t" and i: "index t < length (queue t)"
      and n: "has t (w_id w) = None"
      and so: "sorted (map w_id (drop (Suc (index t)) (queue t)))" by auto
    note q = queueWatcher_flush[OF f i, of cfg w]
    from q(2) n obtain A B where ab: "drop (Suc (index t)) (queue t) = A @ B"
      "drop (Suc (index t)) (queue (fst (queueWatcher cfg t w))) = A @ [w] @ B" by auto
    have "queue (fst (queueWatcher cfg t w)) =
            take (Suc (index t)) (queue (fst (queueWatcher cfg t w))) @
            drop (Suc (index t)) (queue (fst (queueWatcher cfg t w)))" by simp
    then have "queue (fst (queueWatcher cfg t w)) = take (Suc (index t)) (queue t) @ A @ [w] @ B"
      unfolding q(1) ab(2) .
    moreover from q(3)[OF so] have "sorted (map w_id (A @ [w] @ B))" unfolding ab(2) .
    ultimately show ?thesis using ab(1) by blast
  qed
  have c: "case flush_loop prog cfg n (flush_start s, u) of
      OutOfFuel (s', u') \<Rightarrow> sorted (map w_id (drop (index s') (queue s')))
    | Done (s', u') \<Rightarrow> sorted (map w_id (drop (Suc (index s')) (queue s')))"
    using flush_loop_sorted[OF head_sorted_start, of prog cfg n s u]
    by (auto simp: head_sorted_def split: outcome.splits)
  have d: "sorted (ran (fst (outcome_state (flush_loop prog cfg n (flush_start s, u)))))"
    if h: "(\<forall>x. \<forall>c \<in> calls_of prog x. w_id x \<le> w_id c) \<and> ran s = []"
  proof -
    from h have "run_sorted (flush_start s)"
      using head_sorted_start[of s] by (simp add: run_sorted_def flush_start_def)
    moreover from h have "\<forall>x. \<forall>c \<in> calls_of prog x. w_id x \<le> w_id c" by simp
    ultimately show ?thesis by (rule flush_loop_run_sorted)
  qed
  from a b c d show ?thesis by blast
qed

subsection \<open>Sample flushes\<close>


lemma calls_of_quiet_program: "calls_of quiet_program w = {}"
  by (simp add: calls_of_def quiet_program_def)




text \<open>
  Claim C2 as stated fails: with watcher 2 alone in the queue, and a run of watcher 2
  that invalidates watcher 1, one flush runs watcher 2 and then watcher 1.
\<close>

theorem flush_order_counterexample:
  "(case flushSchedulerQueue back_program dev_config 10
           (queueWatchers dev_config initial_sched [mk_watcher 2], ()) of
      Done ((s, u), activated, updated) \<Rightarrow> ran s = [2, 1] \<and> map w_id updated = [2, 1]
    | OutOfFuel r \<Rightarrow> False) \<and>
   \<not> sorted [2 :: nat, 1]"
  by code_simp

lemma flushing_sample_eval:
  "flushing flushing_sample" "index flushing_sample = 0"
  "map w_id (queue flushing_sample) = [2, 5, 7]"
  "has flushing_sample 6 = None"
  "ran flushing_sample = []"
  by code_simp+

theorem flush_order_witness:
  "flushing flushing_sample \<and> index flushing_sample < length (queue flushing_sample) \<and>
   has flushing_sample (w_id (mk_watcher 6)) = None \<and>
   sorted (map w_id (drop (Suc (index flushing_sample)) (queue flushing_sample))) \<and>
   map w_id (queue (fst (queueWatcher dev_config flushing_sample (mk_watcher 6)))) = [2, 5, 6, 7] \<and>
   calls_of quiet_program (mk_watcher 5) = {} \<and> ran flushing_sample = [] \<and>
   sorted (ran (fst (outcome_state (flush_loop quiet_program dev_config 10
                  (flush_start flushing_sample, ())))))"
proof -
  have q: "map w_id (queue (fst (queueWatcher dev_config flushing_sample (mk_watcher 6)))) = [2, 5, 6, 7]"
    by code_simp
  have h: "flushing flushing_sample \<and> index flushing_sample < length (queue flushing_sample) \<and>
     has flushing_sample (w_id (mk_watcher 6)) = None \<and>
     sorted (map w_id (drop (Suc (index flushing_sample)) (queue flushing_sample)))"
    by code_simp
  have m: "(\<forall>x. \<forall>c \<in> calls_of quiet_program x. w_id x \<le> w_id c) \<and> ran flushing_sample = []"
    by (simp add: calls_of_quiet_program flushing_sample_eval)
  from flush_order [of flushing_sample flushing_sample "mk_watcher 6" dev_config quiet_program 10 "()"]
    h m q calls_of_quiet_program[of "mk_watcher 5"]
  show ?thesis by blast
qed

subsection \<open>A watcher that invalidates itself on every run\<close>


subsection \<open>Runaway updates\<close>

lemma apply_calls_tables:
  "circular (apply_calls cfg s calls) = circular s \<and>
   warnings (apply_calls cfg s calls) = warnings s \<and>
   index (apply_calls cfg s calls) = index s \<and>
   ran (apply_calls cfg s calls) = ran s \<and>
   (has (apply_calls cfg s calls) k \<noteq> None \<longleftrightarrow>
      has s k \<noteq> None \<or>
      list_ex (\<lambda>c. case c of QueueWatcher w \<Rightarrow> w_id w = k | QueueActivated vm \<Rightarrow> False) calls)"
proof (induction calls arbitrary: s)
  case Nil
  show ?case
    by simp
next
  case (Cons c calls)
  show ?case
  proof (cases c)
    case (QueueWatcher w)
    have "has (fst (queueWatcher cfg s w)) k \<noteq> None \<longleftrightarrow> has s k \<noteq> None \<or> w_id w = k"
      by (auto simp add: queueWatcher_def Let_def)
    with Cons.IH [of "fst (queueWatcher cfg s w)"] QueueWatcher show ?thesis
      by (auto simp add: queueWatcher_fields)
  next
    case (QueueActivated vm)
    with Cons.IH [of "queueActivatedComponent s vm"] show ?thesis
      by (simp add: queueActivatedComponent_def)
  qed
qed

lemma run_watcher_tables:
  "circular (fst (run_watcher prog cfg (s, u))) = circular s \<and>
   warnings (fst (run_watcher prog cfg (s, u))) = warnings s \<and>
   index (fst (run_watcher prog cfg (s, u))) = index s \<and>
   ran (fst (run_watcher prog cfg (s, u))) = ran s @ [w_id (queue s ! index s)] \<and>
   (has (fst (run_watcher prog cfg (s, u))) (w_id (queue s ! index s)) \<noteq> None \<longleftrightarrow>
      requeues_itself prog (s, u))"
proof -
  let ?w = "queue s ! index s"
  obtain s1 u1 where b: "(case before prog ?w of
                            Some hook \<Rightarrow> (case hook u of (calls, u') \<Rightarrow> (apply_calls cfg s calls, u'))
                          | None \<Rightarrow> (s, u)) = (s1, u1)"
    by (cases "case before prog ?w of
                 Some hook \<Rightarrow> (case hook u of (calls, u') \<Rightarrow> (apply_calls cfg s calls, u'))
               | None \<Rightarrow> (s, u)") auto
  then have s1: "circular s1 = circular s" "warnings s1 = warnings s" "index s1 = index s"
      "ran s1 = ran s"
    and u1: "u1 = (case before prog ?w of Some hook \<Rightarrow> snd (hook u) | None \<Rightarrow> u)"
    by (auto simp add: apply_calls_tables split: option.splits prod.splits)
  obtain calls u2 where r: "run prog ?w u1 = (calls, u2)"
    by (cases "run prog ?w u1") auto
  let ?s2 = "s1\<lparr>has := (has s1)(w_id ?w := None)\<rparr>"
  have rw: "fst (run_watcher prog cfg (s, u)) = apply_calls cfg (?s2\<lparr>ran := ran ?s2 @ [w_id ?w]\<rparr>) calls"
    by (simp add: run_watcher_def Let_def b r)
  have rq: "requeues_itself prog (s, u) =
      list_ex (\<lambda>c. case c of QueueWatcher w \<Rightarrow> w_id w = w_id ?w | QueueActivated vm \<Rightarrow> False) calls"
    using r by (simp add: requeues_itself_def Let_def u1)
  show ?thesis
    unfolding rw rq
    using apply_calls_tables [of cfg "?s2\<lparr>ran := ran ?s2 @ [w_id ?w]\<rparr>" calls "w_id ?w"] s1
    by simp
qed

text \<open>
  A turn in a development build, by whether the watcher was re-enqueued for itself and
  by the count that \<open>circular\<close> holds for it.
\<close>

lemma flush_turn_development:
  assumes dev: "\<not> sc_production cfg" and i: "index s < length (queue s)"
  shows "\<exists>s' u'.
     (if requeues_itself prog (s, u)
      then if MAX_UPDATE_COUNT < Suc (circular_count s (w_id (queue s ! index s)))
           then flush_turn prog cfg (s, u) = Stop (s', u') \<and>
                warnings s' = warnings s @
                  [(runaway_message (queue s ! index s), w_vm (queue s ! index s))] \<and>
                index s' = index s
           else flush_turn prog cfg (s, u) = Next (s', u') \<and> warnings s' = warnings s
      else flush_turn prog cfg (s, u) = Next (s', u') \<and> warnings s' = warnings s) \<and>
     (\<forall>k. circular_count s' k =
            circular_count s k +
            (if w_id (queue s ! index s) = k \<and> requeues_itself prog (s, u) then 1 else 0))"
proof -
  let ?id = "w_id (queue s ! index s)"
  obtain s3 u2 where rw: "run_watcher prog cfg (s, u) = (s3, u2)"
    by (cases "run_watcher prog cfg (s, u)") auto
  from run_watcher_tables [of prog cfg s u] rw
  have c3: "circular s3 = circular s" and w3: "warnings s3 = warnings s"
    and i3: "index s3 = index s" and h3: "has s3 ?id \<noteq> None \<longleftrightarrow> requeues_itself prog (s, u)"
    by simp_all
  show ?thesis
  proof (cases "requeues_itself prog (s, u)")
    case False
    with h3 have "flush_turn prog cfg (s, u) = Next (s3\<lparr>index := index s3 + 1\<rparr>, u2)"
      using i by (simp add: flush_turn_def rw)
    with False c3 w3 show ?thesis
      by (simp add: circular_count_def)
  next
    case True
    let ?c = "Suc (circular_count s ?id)"
    let ?s4 = "s3\<lparr>circular := (circular s3)(?id := Some ?c)\<rparr>"
    have count: "circular_count ?s4 k = circular_count s k + (if ?id = k then 1 else 0)" for k
      by (simp add: circular_count_def c3)
    show ?thesis
    proof (cases "MAX_UPDATE_COUNT < ?c")
      case stop: True
      with True h3 have "flush_turn prog cfg (s, u) =
          Stop (?s4\<lparr>warnings := warnings ?s4 @
                  [(runaway_message (queue s ! index s), w_vm (queue s ! index s))]\<rparr>, u2)"
        using dev i by (simp add: flush_turn_def rw Let_def circular_count_def c3)
      with True stop w3 i3 count show ?thesis
        by (simp add: circular_count_def)
    next
      case go: False
      with True h3 have "flush_turn prog cfg (s, u) = Next (?s4\<lparr>index := index ?s4 + 1\<rparr>, u2)"
        using dev i by (simp add: flush_turn_def rw Let_def circular_count_def c3)
      with True go w3 count show ?thesis
        by (simp add: circular_count_def)
    qed
  qed
qed

lemma flush_turn_production:
  assumes "sc_production cfg" and "index s < length (queue s)"
  shows "\<exists>s' u'. flush_turn prog cfg (s, u) = Next (s', u') \<and> warnings s' = warnings s \<and>
           circular s' = circular s \<and> ran s' = ran s @ [w_id (queue s ! index s)]"
proof -
  obtain s3 u2 where rw: "run_watcher prog cfg (s, u) = (s3, u2)"
    by (cases "run_watcher prog cfg (s, u)") auto
  with assms have "flush_turn prog cfg (s, u) = Next (s3\<lparr>index := index s3 + 1\<rparr>, u2)"
    by (simp add: flush_turn_def)
  with run_watcher_tables [of prog cfg s u] rw show ?thesis
    by simp
qed

lemma flush_loop_more_fuel:
  "flush_loop prog cfg n su = Done x \<Longrightarrow> n \<le> m \<Longrightarrow> flush_loop prog cfg m su = Done x"
proof (induction n arbitrary: m su)
  case 0
  then show ?case
    by simp
next
  case (Suc n)
  then obtain m' where m: "m = Suc m'" and le: "n \<le> m'"
    by (cases m) auto
  show ?case
  proof (cases "flush_turn prog cfg su")
    case (Stop su')
    with Suc.prems(1) m show ?thesis
      by simp
  next
    case (Next su')
    with Suc.prems(1) have "flush_loop prog cfg n su' = Done x"
      by simp
    from Suc.IH [OF this le] Next m show ?thesis
      by simp
  qed
qed

text \<open>
  The state of the loop after any number of turns, in a development build, from a state
  in which no count of \<open>circular\<close> is above the threshold: the counts have grown by the
  numbers of self re-enqueues; while the loop runs, and when it ends with the queue
  used up, no count is above the threshold and no warning was given; otherwise the loop
  was left by the \<open>break\<close>.
\<close>

lemma flush_loop_requeues:
  assumes dev: "\<not> sc_production cfg"
  shows "flushing s \<Longrightarrow> \<forall>k. circular_count s k \<le> MAX_UPDATE_COUNT \<Longrightarrow>
    (\<forall>k. circular_count (fst (outcome_state (flush_loop prog cfg n (s, u)))) k =
          circular_count s k + self_requeues prog cfg n (s, u) k) \<and>
    (case flush_loop prog cfg n (s, u) of
       OutOfFuel (s', u') \<Rightarrow>
         warnings s' = warnings s \<and> (\<forall>k. circular_count s' k \<le> MAX_UPDATE_COUNT)
     | Done (s', u') \<Rightarrow>
         (warnings s' = warnings s \<and> (\<forall>k. circular_count s' k \<le> MAX_UPDATE_COUNT)) \<or>
         runaway_stop s s')"
proof (induction n arbitrary: s u)
  case 0
  then show ?case
    by simp
next
  case (Suc n)
  show ?case
  proof (cases "index s < length (queue s)")
    case False
    then have "flush_turn prog cfg (s, u) = Stop (s, u)"
      by (simp add: flush_turn_def)
    with False Suc.prems show ?thesis
      by simp
  next
    case True
    let ?id = "w_id (queue s ! index s)"
    let ?d = "\<lambda>k. if ?id = k \<and> requeues_itself prog (s, u) then 1 else 0 :: nat"
    from flush_turn_development [OF dev True, of prog u]
    obtain s' u' where
      turn: "if requeues_itself prog (s, u)
             then if MAX_UPDATE_COUNT < Suc (circular_count s ?id)
                  then flush_turn prog cfg (s, u) = Stop (s', u') \<and>
                       warnings s' = warnings s @
                         [(runaway_message (queue s ! index s), w_vm (queue s ! index s))] \<and>
                       index s' = index s
                  else flush_turn prog cfg (s, u) = Next (s', u') \<and> warnings s' = warnings s
             else flush_turn prog cfg (s, u) = Next (s', u') \<and> warnings s' = warnings s"
      and counts: "\<forall>k. circular_count s' k = circular_count s k + ?d k"
      by blast
    from run_watcher_flush [OF Suc.prems(1) True, of prog cfg u 0]
    have rf: "flushing (fst (run_watcher prog cfg (s, u)))"
      and rl: "index s < length (queue (fst (run_watcher prog cfg (s, u))))"
      and rt: "take (Suc (index s)) (queue (fst (run_watcher prog cfg (s, u)))) =
                 take (Suc (index s)) (queue s)"
      and rr: "ran (fst (run_watcher prog cfg (s, u))) = ran s @ [?id]"
      by blast+
    show ?thesis
    proof (cases "requeues_itself prog (s, u) \<and> MAX_UPDATE_COUNT < Suc (circular_count s ?id)")
      case stop: True
      with turn have st: "flush_turn prog cfg (s, u) = Stop (s', u')"
        and w: "warnings s' = warnings s @
                  [(runaway_message (queue s ! index s), w_vm (queue s ! index s))]"
        and ix: "index s' = index s"
        by simp_all
      from flush_turn_Stop [OF st] True
      have q: "queue s' = queue (fst (run_watcher prog cfg (s, u)))"
        and r: "ran s' = ran (fst (run_watcher prog cfg (s, u)))"
        by simp_all
      have "queue s' ! index s = take (Suc (index s)) (queue s') ! index s"
        by simp
      also have "\<dots> = queue s ! index s"
        unfolding q rt by simp
      finally have same: "queue s' ! index s' = queue s ! index s"
        by (simp add: ix)
      from Suc.prems(2) stop counts
      have top: "circular_count s' ?id = Suc MAX_UPDATE_COUNT"
        by (metis (mono_tags, lifting) Suc_leI add.right_neutral add_Suc_right le_antisym
            not_less_eq_eq One_nat_def)
      from Suc.prems(2) counts
      have rest: "\<forall>k. k \<noteq> ?id \<longrightarrow> circular_count s' k \<le> MAX_UPDATE_COUNT"
        by simp
      from rl q ix have "index s' < length (queue s')"
        by simp
      with same top rest w r rr have "runaway_stop s s'"
        by (simp add: runaway_stop_def)
      with st counts True show ?thesis
        by simp
    next
      case go: False
      with turn have nx: "flush_turn prog cfg (s, u) = Next (s', u')"
        and w: "warnings s' = warnings s"
        by (auto split: if_splits)
      from flush_turn_Next(5) [OF nx] rf have f': "flushing s'"
        by simp
      from Suc.prems(2) counts go
      have bound: "\<forall>k. circular_count s' k \<le> MAX_UPDATE_COUNT"
        by (auto simp add: not_less)
      from Suc.IH [OF f' bound, of u']
      have ih1: "\<forall>k. circular_count (fst (outcome_state (flush_loop prog cfg n (s', u')))) k =
                      circular_count s' k + self_requeues prog cfg n (s', u') k"
        and ih2: "case flush_loop prog cfg n (s', u') of
                    OutOfFuel (s'', u'') \<Rightarrow>
                      warnings s'' = warnings s' \<and>
                      (\<forall>k. circular_count s'' k \<le> MAX_UPDATE_COUNT)
                  | Done (s'', u'') \<Rightarrow>
                      (warnings s'' = warnings s' \<and>
                       (\<forall>k. circular_count s'' k \<le> MAX_UPDATE_COUNT)) \<or>
                      runaway_stop s' s''"
        by blast+
      have loop: "flush_loop prog cfg (Suc n) (s, u) = flush_loop prog cfg n (s', u')"
        using nx by simp
      have cnt: "self_requeues prog cfg (Suc n) (s, u) k = ?d k + self_requeues prog cfg n (s', u') k"
        for k
        using nx True by simp
      have stop_eq: "runaway_stop s' x = runaway_stop s x" for x
        by (simp add: runaway_stop_def w)
      from ih1 counts cnt
      have "\<forall>k. circular_count (fst (outcome_state (flush_loop prog cfg (Suc n) (s, u)))) k =
                 circular_count s k + self_requeues prog cfg (Suc n) (s, u) k"
        unfolding loop by simp
      moreover from ih2
      have "case flush_loop prog cfg (Suc n) (s, u) of
              OutOfFuel (s'', u'') \<Rightarrow>
                warnings s'' = warnings s \<and> (\<forall>k. circular_count s'' k \<le> MAX_UPDATE_COUNT)
            | Done (s'', u'') \<Rightarrow>
                (warnings s'' = warnings s \<and> (\<forall>k. circular_count s'' k \<le> MAX_UPDATE_COUNT)) \<or>
                runaway_stop s s''"
        unfolding loop by (auto simp add: w stop_eq split: outcome.splits)
      ultimately show ?thesis
        by blast
    qed
  qed
qed
lemma splice_index_stop: "\<not> int idx < i \<Longrightarrow> splice_index q idx w i = i"
  by (subst splice_index.simps) simp

lemma self_start:
  "sc_async cfg \<Longrightarrow>
   flush_start (queueWatchers cfg initial_sched [mk_watcher 3]) = self_state 0 (\<lambda>x. None)"
  by (simp add: flush_start_def queueWatchers_def queueWatcher_def initial_sched_def
        self_state_def mk_watcher_def Let_def)

lemma self_head:
  "queue (self_state k c) ! index (self_state k c) = mk_watcher 3"
  "index (self_state k c) < length (queue (self_state k c))"
  by (simp_all add: self_state_def del: replicate.simps)

lemma self_run:
  "run_watcher self_program cfg (self_state k c, ()) =
     ((self_state k c)\<lparr>queue := replicate (Suc (Suc k)) (mk_watcher 3),
                        ran := replicate (Suc k) 3\<rparr>, ())"
proof -
  have sp: "splice_index (replicate (Suc k) (mk_watcher 3)) k (mk_watcher 3) (int k) = int k"
    by (rule splice_index_stop) simp
  have q: "replicate (Suc k) (mk_watcher 3) @ [mk_watcher 3] = replicate (Suc (Suc k)) (mk_watcher 3)"
    by (simp add: replicate_append_same)
  have r: "replicate k (3::nat) @ [3] = replicate (Suc k) 3"
    by (simp add: replicate_append_same)
  have i: "w_id (mk_watcher 3) = 3" by (simp add: mk_watcher_def)
  show ?thesis
    unfolding run_watcher_def prod.case self_head
    by (simp add: self_program_def queueWatcher_def Let_def self_state_def i
          sp[simplified] replicate_append_same)
qed

lemma self_turn_prod:
  "flush_turn self_program prod_config (self_state k c, ()) = Next (self_state (Suc k) c, ())"
  unfolding flush_turn_def fst_conv self_head self_run
  by (simp add: prod_config_def self_state_def del: replicate.simps)

lemma self_loop_prod:
  "flush_loop self_program prod_config n (self_state k c, ()) = OutOfFuel (self_state (k + n) c, ())"
  by (induction n arbitrary: k) (simp_all add: self_turn_prod)

lemma flush_turn_again:
  assumes "\<not> sc_production cfg" and "index s < length (queue s)"
      and "run_watcher prog cfg (s, u) = (s3, u2)"
      and "has s3 (w_id (queue s ! index s)) \<noteq> None"
      and "(case circular s3 (w_id (queue s ! index s)) of Some n \<Rightarrow> n | None \<Rightarrow> 0) = c"
  shows "flush_turn prog cfg (s, u) =
           (if MAX_UPDATE_COUNT < Suc c
            then Stop (s3\<lparr>circular := (circular s3)(w_id (queue s ! index s) := Some (Suc c)),
                          warnings := warnings s3 @
                            [(runaway_message (queue s ! index s), w_vm (queue s ! index s))]\<rparr>, u2)
            else Next (s3\<lparr>circular := (circular s3)(w_id (queue s ! index s) := Some (Suc c)),
                          index := Suc (index s3)\<rparr>, u2))"
  using assms by (simp add: flush_turn_def Let_def)

lemma self_turn_dev:
  assumes "k < 100"
  shows "flush_turn self_program dev_config (self_state k (circ_of k), ()) =
           Next (self_state (Suc k) (circ_of (Suc k)), ())"
proof -
  let ?s3 = "(self_state k (circ_of k))\<lparr>queue := replicate (Suc (Suc k)) (mk_watcher 3),
                        ran := replicate (Suc k) 3\<rparr>"
  have i: "w_id (mk_watcher 3) = 3" by (simp add: mk_watcher_def)
  have d: "\<not> sc_production dev_config" by (simp add: dev_config_def)
  have h: "has ?s3 (w_id (queue (self_state k (circ_of k)) ! index (self_state k (circ_of k)))) \<noteq> None"
    unfolding self_head i by (simp add: self_state_def)
  have n: "(case circular ?s3 (w_id (queue (self_state k (circ_of k)) ! index (self_state k (circ_of k))))
              of Some n \<Rightarrow> n | None \<Rightarrow> 0) = k"
    unfolding self_head i by (simp add: self_state_def circ_of_def)
  have u: "(circ_of k)(3 := Some (Suc k)) = circ_of (Suc k)"
    by (simp add: circ_of_def)
  have e: "?s3\<lparr>circular := (circular ?s3)(3 := Some (Suc k)), index := Suc (index ?s3)\<rparr> =
           self_state (Suc k) (circ_of (Suc k))"
    using u by (simp add: self_state_def del: replicate.simps)
  show ?thesis
    unfolding flush_turn_again[OF d self_head(2) self_run h n] self_head i e
    using assms by (simp add: MAX_UPDATE_COUNT_def)
qed

lemma self_loop_dev:
  "k + n \<le> 100 \<Longrightarrow>
   flush_loop self_program dev_config n (self_state k (circ_of k), ()) =
     OutOfFuel (self_state (k + n) (circ_of (k + n)), ())"
  by (induction n arbitrary: k) (simp_all add: self_turn_dev)


lemma self_requeues_itself: "requeues_itself self_program (self_state k c, ())"
  unfolding requeues_itself_def prod.case Let_def self_head
  by (simp add: self_program_def)

lemma self_count:
  "k \<le> 100 \<Longrightarrow> k + n = 101 \<Longrightarrow>
   self_requeues self_program dev_config n (self_state k (circ_of k), ()) 3 = n"
proof (induction n arbitrary: k)
  case 0
  then show ?case
    by simp
next
  case (Suc n)
  have id: "w_id (mk_watcher 3) = 3"
    by (simp add: mk_watcher_def)
  have one: "self_requeues self_program dev_config (Suc n) (self_state k (circ_of k), ()) 3 =
      1 + (case flush_turn self_program dev_config (self_state k (circ_of k), ()) of
             Next su' \<Rightarrow> self_requeues self_program dev_config n su' 3
           | Stop su' \<Rightarrow> 0)"
    unfolding self_requeues.simps fst_conv self_head id
    using self_head(2) [of k "circ_of k"] self_requeues_itself [of k "circ_of k"]
    by simp
  show ?case
  proof (cases "k < 100")
    case True
    with Suc.prems have "Suc k \<le> 100" "Suc k + n = 101"
      by simp_all
    from Suc.IH [OF this] show ?thesis
      unfolding one self_turn_dev [OF True] by simp
  next
    case False
    with Suc.prems have "n = 0"
      by simp
    then show ?thesis
      unfolding one by (simp split: turn.splits)
  qed
qed

text \<open>
  Claim C3, as the code has it. In a development build, in one flush (the table
  \<open>circular\<close> is empty when it starts), for every program and every watcher id: the
  number of turns in which the watcher ran and was re-enqueued for itself never goes
  above \<open>MAX_UPDATE_COUNT + 1 = 101\<close>; when it has gone above the threshold of 100, the
  loop of the flush has ended, and stays ended for any further number of turns: that
  watcher was the last to run, one warning was passed to \<open>warn\<close>, with a message that
  names the expression of a user watcher (or the render function of the component) and
  with the component of the watcher, the queue still holds watchers that did not run,
  and the flush goes on to reset the state of the scheduler and returns; as long as no
  watcher has gone above the threshold, the flush has given no warning. In a production
  build every turn that finds a watcher at the index runs it and goes on to the next
  turn with no warning, whatever was re-enqueued.
\<close>

theorem flush_runaway:
  "(\<not> sc_production cfg \<and> circular s0 = (\<lambda>k. None) \<longrightarrow>
      self_requeues prog cfg n (flush_start s0, u) k \<le> Suc MAX_UPDATE_COUNT \<and>
      (MAX_UPDATE_COUNT < self_requeues prog cfg n (flush_start s0, u) k \<longrightarrow>
         (\<exists>s' u'.
            (\<forall>m\<ge>n. flush_loop prog cfg m (flush_start s0, u) = Done (s', u') \<and>
                    flushSchedulerQueue prog cfg m (s0, u) =
                      Done ((resetSchedulerState cfg s', u'), activatedChildren s', queue s')) \<and>
            index s' < length (queue s') \<and> w_id (queue s' ! index s') = k \<and>
            warnings s' = warnings s0 @
              [(runaway_message (queue s' ! index s'), w_vm (queue s' ! index s'))] \<and>
            ran s' \<noteq> [] \<and> last (ran s') = k)) \<and>
      ((\<forall>j. self_requeues prog cfg n (flush_start s0, u) j \<le> MAX_UPDATE_COUNT) \<longrightarrow>
         warnings (fst (outcome_state (flush_loop prog cfg n (flush_start s0, u)))) = warnings s0)) \<and>
   (sc_production cfg \<and> index s < length (queue s) \<longrightarrow>
      (\<exists>s' u'. flush_turn prog cfg (s, u) = Next (s', u') \<and> warnings s' = warnings s \<and>
         ran s' = ran s @ [w_id (queue s ! index s)]))"
proof (intro conjI impI)
  assume "sc_production cfg \<and> index s < length (queue s)"
  then show "\<exists>s' u'. flush_turn prog cfg (s, u) = Next (s', u') \<and> warnings s' = warnings s \<and>
         ran s' = ran s @ [w_id (queue s ! index s)]"
    using flush_turn_production [of cfg s prog u] by blast
next
  assume a: "\<not> sc_production cfg \<and> circular s0 = (\<lambda>k. None)"
  let ?s = "flush_start s0"
  let ?r = "flush_loop prog cfg n (?s, u)"
  have f: "flushing ?s" and w0: "warnings ?s = warnings s0"
    by (simp_all add: flush_start_def)
  have zero: "circular_count ?s j = 0" for j
    using a by (simp add: flush_start_def circular_count_def)
  then have low: "\<forall>j. circular_count ?s j \<le> MAX_UPDATE_COUNT"
    by simp
  from a have dev: "\<not> sc_production cfg"
    by simp
  from flush_loop_requeues [OF dev f low, of prog n u] zero
  have counts: "\<And>j. circular_count (fst (outcome_state ?r)) j = self_requeues prog cfg n (?s, u) j"
    and shape: "case ?r of
                  OutOfFuel (s', u') \<Rightarrow>
                    warnings s' = warnings ?s \<and> (\<forall>k. circular_count s' k \<le> MAX_UPDATE_COUNT)
                | Done (s', u') \<Rightarrow>
                    (warnings s' = warnings ?s \<and> (\<forall>k. circular_count s' k \<le> MAX_UPDATE_COUNT)) \<or>
                    runaway_stop ?s s'"
    by simp_all
  consider (running) s' u' where "?r = OutOfFuel (s', u')" "warnings s' = warnings ?s"
        "\<forall>k. circular_count s' k \<le> MAX_UPDATE_COUNT"
    | (used_up) s' u' where "?r = Done (s', u')" "warnings s' = warnings ?s"
        "\<forall>k. circular_count s' k \<le> MAX_UPDATE_COUNT"
    | (stopped) s' u' where "?r = Done (s', u')" "runaway_stop ?s s'"
    using shape by (cases ?r) auto
  note result = this
  {
    show "self_requeues prog cfg n (?s, u) k \<le> Suc MAX_UPDATE_COUNT"
    proof (cases rule: result)
      case running
      from running(3) have "circular_count s' k \<le> MAX_UPDATE_COUNT"
        by blast
      with counts [of k] running(1) show ?thesis
        by simp
    next
      case used_up
      from used_up(3) have "circular_count s' k \<le> MAX_UPDATE_COUNT"
        by blast
      with counts [of k] used_up(1) show ?thesis
        by simp
    next
      case stopped
      from stopped(2) have "circular_count s' k \<le> Suc MAX_UPDATE_COUNT"
        by (cases "k = w_id (queue s' ! index s')") (auto simp add: runaway_stop_def le_Suc_eq)
      with counts [of k] stopped(1) show ?thesis
        by simp
    qed
  next
    assume over: "MAX_UPDATE_COUNT < self_requeues prog cfg n (?s, u) k"
    show "\<exists>s' u'.
            (\<forall>m\<ge>n. flush_loop prog cfg m (?s, u) = Done (s', u') \<and>
                    flushSchedulerQueue prog cfg m (s0, u) =
                      Done ((resetSchedulerState cfg s', u'), activatedChildren s', queue s')) \<and>
            index s' < length (queue s') \<and> w_id (queue s' ! index s') = k \<and>
            warnings s' = warnings s0 @
              [(runaway_message (queue s' ! index s'), w_vm (queue s' ! index s'))] \<and>
            ran s' \<noteq> [] \<and> last (ran s') = k"
    proof (cases rule: result)
      case running
      from running(3) have "circular_count s' k \<le> MAX_UPDATE_COUNT"
        by blast
      with counts [of k] running(1) over show ?thesis
        by simp
    next
      case used_up
      from used_up(3) have "circular_count s' k \<le> MAX_UPDATE_COUNT"
        by blast
      with counts [of k] used_up(1) over show ?thesis
        by simp
    next
      case stopped
      from stopped(2) have st: "index s' < length (queue s')"
        "\<forall>j. j \<noteq> w_id (queue s' ! index s') \<longrightarrow> circular_count s' j \<le> MAX_UPDATE_COUNT"
        "warnings s' = warnings ?s @
           [(runaway_message (queue s' ! index s'), w_vm (queue s' ! index s'))]"
        "ran s' \<noteq> []" "last (ran s') = w_id (queue s' ! index s')"
        by (simp_all add: runaway_stop_def)
      from counts [of k] stopped(1) over have "MAX_UPDATE_COUNT < circular_count s' k"
        by simp
      with st(2) have k: "w_id (queue s' ! index s') = k"
        by (metis not_less)
      have more: "flush_loop prog cfg m (?s, u) = Done (s', u') \<and>
                  flushSchedulerQueue prog cfg m (s0, u) =
                    Done ((resetSchedulerState cfg s', u'), activatedChildren s', queue s')"
        if "n \<le> m" for m
        using flush_loop_more_fuel [OF stopped(1) that]
        by (simp add: flushSchedulerQueue_def)
      from more st k w0 show ?thesis
        by auto
    qed
  next
    assume under: "\<forall>j. self_requeues prog cfg n (?s, u) j \<le> MAX_UPDATE_COUNT"
    show "warnings (fst (outcome_state ?r)) = warnings s0"
    proof (cases rule: result)
      case running
      with w0 show ?thesis
        by simp
    next
      case used_up
      with w0 show ?thesis
        by simp
    next
      case stopped
      from stopped(2) have "circular_count s' (w_id (queue s' ! index s')) = Suc MAX_UPDATE_COUNT"
        by (simp add: runaway_stop_def)
      with counts [of "w_id (queue s' ! index s')"] stopped(1) under show ?thesis
        by (metis Suc_n_not_le_n fst_conv outcome_state.simps(1))
    qed
  }
qed

lemma flush_loop_add:
  "flush_loop prog cfg (n + m) su =
     (case flush_loop prog cfg n su of
        OutOfFuel su' \<Rightarrow> flush_loop prog cfg m su'
      | Done x \<Rightarrow> Done x)"
  by (induction n arbitrary: su) (simp_all split: turn.splits)

lemma self_turn_stop:
  "flush_turn self_program dev_config (self_state 100 (circ_of 100), ()) = Stop (self_stopped, ())"
proof -
  let ?s = "self_state 100 (circ_of 100)"
  let ?s3 = "?s\<lparr>queue := replicate (Suc (Suc 100)) (mk_watcher 3), ran := replicate (Suc 100) 3\<rparr>"
  have i: "w_id (mk_watcher 3) = 3" "w_vm (mk_watcher 3) = 0"
    by (simp_all add: mk_watcher_def)
  have d: "\<not> sc_production dev_config"
    by (simp add: dev_config_def)
  have h: "has ?s3 (w_id (queue ?s ! index ?s)) \<noteq> None"
    unfolding self_head i by (simp add: self_state_def)
  have n: "(case circular ?s3 (w_id (queue ?s ! index ?s)) of Some n \<Rightarrow> n | None \<Rightarrow> 0) = 100"
    unfolding self_head i by (simp add: self_state_def circ_of_def)
  have e: "?s3\<lparr>circular := (circular ?s3)(3 := Some (Suc 100)),
               warnings := warnings ?s3 @ [(runaway_message (mk_watcher 3), 0)]\<rparr> = self_stopped"
    by (simp add: self_state_def self_stopped_def circ_of_def eval_nat_numeral
          del: replicate.simps)
  show ?thesis
    unfolding flush_turn_again [OF d self_head(2) self_run h n] self_head i e
    by (simp add: MAX_UPDATE_COUNT_def)
qed

lemma self_loop_stop:
  "flush_loop self_program dev_config 101
     (flush_start (queueWatchers dev_config initial_sched [mk_watcher 3]), ()) =
   Done (self_stopped, ())"
proof -
  have start: "flush_start (queueWatchers dev_config initial_sched [mk_watcher 3]) =
                 self_state 0 (circ_of 0)"
    using self_start [of dev_config] by (simp add: dev_config_def circ_of_def)
  have "flush_loop self_program dev_config (100 + 1) (self_state 0 (circ_of 0), ()) =
          flush_loop self_program dev_config 1 (self_state 100 (circ_of 100), ())"
    unfolding flush_loop_add using self_loop_dev [of 0 100] by simp
  also have "\<dots> = Done (self_stopped, ())"
    using self_turn_stop by (simp add: One_nat_def del: flush_loop.simps(2))
        (simp add: flush_loop.simps(2))
  finally show ?thesis
    unfolding start by simp
qed

theorem flush_runaway_witness:
  "sc_production dev_config = False \<and>
   circular (queueWatchers dev_config initial_sched [mk_watcher 3]) = (\<lambda>k. None) \<and>
   self_requeues self_program dev_config 101
      (flush_start (queueWatchers dev_config initial_sched [mk_watcher 3]), ()) 3 = 101 \<and>
   MAX_UPDATE_COUNT = 100 \<and>
   flush_loop self_program dev_config 101
      (flush_start (queueWatchers dev_config initial_sched [mk_watcher 3]), ()) =
     Done (self_stopped, ()) \<and>
   flush_loop self_program dev_config 500
      (flush_start (queueWatchers dev_config initial_sched [mk_watcher 3]), ()) =
     Done (self_stopped, ()) \<and>
   flushSchedulerQueue self_program dev_config 500
      (queueWatchers dev_config initial_sched [mk_watcher 3], ()) =
     Done ((resetSchedulerState dev_config self_stopped, ()), [], replicate 102 (mk_watcher 3)) \<and>
   warnings self_stopped = [(runaway_message (mk_watcher 3), 0)] \<and>
   ran self_stopped = replicate 101 3 \<and>
   sc_production prod_config \<and>
   index (self_state 150 (\<lambda>x. None)) = 150 \<and>
   length (queue (self_state 150 (\<lambda>x. None))) = 151 \<and>
   flush_turn self_program prod_config (self_state 150 (\<lambda>x. None), ()) =
     Next (self_state 151 (\<lambda>x. None), ()) \<and>
   warnings (self_state 151 (\<lambda>x. None)) = warnings (self_state 150 (\<lambda>x. None)) \<and>
   ran (self_state 151 (\<lambda>x. None)) = ran (self_state 150 (\<lambda>x. None)) @ [3]"
proof -
  let ?s0 = "queueWatchers dev_config initial_sched [mk_watcher 3]"
  have dev: "\<not> sc_production dev_config" and prod: "sc_production prod_config"
    by (simp_all add: dev_config_def prod_config_def)
  have empty: "circular ?s0 = (\<lambda>k. None)"
    by (simp add: queueWatchers_def queueWatcher_def initial_sched_def Let_def)
  have start: "flush_start ?s0 = self_state 0 (circ_of 0)"
    using self_start [of dev_config] by (simp add: dev_config_def circ_of_def)
  have count: "self_requeues self_program dev_config 101 (flush_start ?s0, ()) 3 = 101"
    unfolding start using self_count [of 0 101] by simp
  have m: "MAX_UPDATE_COUNT = 100"
    by (simp add: MAX_UPDATE_COUNT_def)
  have ix: "index (self_state 150 (\<lambda>x. None)) = 150"
    "length (queue (self_state 150 (\<lambda>x. None))) = 151"
    by (simp_all add: self_state_def)
  note T = flush_runaway [of dev_config ?s0 self_program 101 "()" 3 self_stopped]
  from T dev empty count m obtain s' u' where
    all: "\<forall>m\<ge>101. flush_loop self_program dev_config m (flush_start ?s0, ()) = Done (s', u') \<and>
            flushSchedulerQueue self_program dev_config m (?s0, ()) =
              Done ((resetSchedulerState dev_config s', u'), activatedChildren s', queue s')"
    by auto
  from all self_loop_stop have s': "s' = self_stopped"
    by auto
  from all s' have later:
    "flush_loop self_program dev_config 500 (flush_start ?s0, ()) = Done (self_stopped, ())"
    "flushSchedulerQueue self_program dev_config 500 (?s0, ()) =
       Done ((resetSchedulerState dev_config self_stopped, ()),
             activatedChildren self_stopped, queue self_stopped)"
    by auto
  have fields: "activatedChildren self_stopped = []"
    "queue self_stopped = replicate 102 (mk_watcher 3)"
    "warnings self_stopped = [(runaway_message (mk_watcher 3), 0)]"
    "ran self_stopped = replicate 101 3"
    by (simp_all add: self_stopped_def del: replicate.simps)
  have turn: "flush_turn self_program prod_config (self_state 150 (\<lambda>x. None), ()) =
     Next (self_state 151 (\<lambda>x. None), ())"
    using self_turn_prod [of 150 "\<lambda>x. None"] by (simp add: eval_nat_numeral)
  have head: "w_id (queue (self_state 150 (\<lambda>x. None)) ! index (self_state 150 (\<lambda>x. None))) = 3"
    unfolding self_head by (simp add: mk_watcher_def)
  from flush_runaway [of prod_config ?s0 self_program 101 "()" 3 "self_state 150 (\<lambda>x. None)"]
       prod ix
  obtain s'' u'' where
    "flush_turn self_program prod_config (self_state 150 (\<lambda>x. None), ()) = Next (s'', u'')"
    "warnings s'' = warnings (self_state 150 (\<lambda>x. None))"
    "ran s'' = ran (self_state 150 (\<lambda>x. None)) @ [3]"
    unfolding head by auto
  with turn have next_turn:
    "warnings (self_state 151 (\<lambda>x. None)) = warnings (self_state 150 (\<lambda>x. None))"
    "ran (self_state 151 (\<lambda>x. None)) = ran (self_state 150 (\<lambda>x. None)) @ [3]"
    by simp_all
  from dev prod empty count m self_loop_stop later fields ix turn next_turn show ?thesis
    by (simp only: simp_thms)
qed

text \<open>
  Claim C3 as stated fails in a production build: the watcher that invalidates itself on
  every run has run 150 times after 150 turns, with no warning, and the loop has not
  ended (nor does it end after any other number of turns).
\<close>

theorem flush_runaway_production_counterexample:
  "(case flushSchedulerQueue self_program prod_config 150
           (queueWatchers prod_config initial_sched [mk_watcher 3], ()) of
      OutOfFuel ((s, u), activated, pending) \<Rightarrow>
        ran s = replicate 150 3 \<and> warnings s = [] \<and> length pending = 151
    | Done r \<Rightarrow> False) \<and>
   MAX_UPDATE_COUNT < 150"
proof -
  have st: "flush_start (queueWatchers prod_config initial_sched [mk_watcher 3]) =
              self_state 0 (\<lambda>x. None)"
    by (rule self_start) (simp add: prod_config_def)
  have "flushSchedulerQueue self_program prod_config 150
           (queueWatchers prod_config initial_sched [mk_watcher 3], ()) =
        OutOfFuel ((self_state 150 (\<lambda>x. None), ()), activatedChildren (self_state 150 (\<lambda>x. None)),
                   queue (self_state 150 (\<lambda>x. None)))"
    unfolding flushSchedulerQueue_def fst_conv snd_conv st self_loop_prod by simp
  then show ?thesis
    by (simp add: self_state_def MAX_UPDATE_COUNT_def del: replicate.simps)
qed


section \<open>Proofs: HTML tokenizer\<close>

subsection \<open>What is left of \<open>html\<close> after each part of a turn\<close>

lemma advance_html: "p_html (advance n st) = drop n (p_html st)"
  by (simp add: advance_def)

lemma call_html: "p_html (call c st) = p_html st"
  by (simp add: call_def)

lemma parseEndTag_html: "p_html (parseEndTag opts t a b st) = p_html st"
  by (simp add: parseEndTag_def Let_def call_html split: option.splits)

lemma handleStartTag_html: "p_html (handleStartTag opts m st) = p_html st"
  by (simp add: handleStartTag_def Let_def call_html parseEndTag_html)

lemma parse_attrs_suffix:
  "parse_attrs st attrs = (st', attrs', e) \<Longrightarrow> suffix (p_html st') (p_html st)"
proof (induction st attrs arbitrary: st' attrs' e rule: parse_attrs.induct)
  case (1 st attrs)
  show ?case
  proof (cases "startTagClose (p_html st)")
    case (Some c)
    with "1.prems" show ?thesis
      by (simp add: parse_attrs.simps [of st attrs])
  next
    case None
    show ?thesis
    proof (cases "case dynamicArgAttribute (p_html st) of
                    None \<Rightarrow> attribute (p_html st) | Some a \<Rightarrow> Some a")
      case no: None
      with None "1.prems" show ?thesis
        by (simp add: parse_attrs.simps [of st attrs])
    next
      case (Some a)
      with None "1.prems" have
        "parse_attrs (advance (am_length a) st)
           (attrs @ [a\<lparr>am_start := p_index st, am_end := p_index (advance (am_length a) st)\<rparr>])
         = (st', attrs', e)"
        by (simp add: parse_attrs.simps [of st attrs] Let_def)
      from "1.IH" [OF None Some refl this]
      have "suffix (p_html st') (drop (am_length a) (p_html st))"
        by (simp add: advance_html)
      then show ?thesis
        by (rule suffix_order.trans) (rule suffix_drop)
    qed
  qed
qed

lemma startTagOpen_match: "startTagOpen u s = Some (n, t) \<Longrightarrow> 0 < n \<and> s \<noteq> []"
  by (auto simp add: startTagOpen_def split: list.splits if_splits option.splits)

lemma suffix_shorter:
  "suffix a (drop n s) \<Longrightarrow> 0 < n \<Longrightarrow> s \<noteq> [] \<Longrightarrow> length a < length s"
  using suffix_length_le [of a "drop n s"] by (cases s) auto

lemma parseStartTag_html:
  assumes "parseStartTag opts st = (st', r)"
  shows "suffix (p_html st') (p_html st)"
    and "r \<noteq> None \<Longrightarrow> length (p_html st') < length (p_html st)"
proof -
  show "suffix (p_html st') (p_html st)"
  proof (cases "startTagOpen (o_unicode opts) (p_html st)")
    case None
    with assms show ?thesis
      by (simp add: parseStartTag_def)
  next
    case (Some p)
    obtain n t where p: "p = (n, t)"
      by (cases p)
    obtain st1 attrs e where pa: "parse_attrs (advance n st) [] = (st1, attrs, e)"
      by (cases "parse_attrs (advance n st) []") auto
    from parse_attrs_suffix [OF pa] have s1: "suffix (p_html st1) (p_html st)"
      by (simp add: advance_html) (meson suffix_drop suffix_order.trans)
    show ?thesis
    proof (cases e)
      case None
      with assms Some p pa s1 show ?thesis
        by (simp add: parseStartTag_def)
    next
      case (Some c)
      obtain m slash where c: "c = (m, slash)"
        by (cases c)
      from assms \<open>startTagOpen (o_unicode opts) (p_html st) = Some p\<close> p pa Some c
      have "st' = advance m st1"
        by (simp add: parseStartTag_def Let_def)
      with s1 show ?thesis
        by (simp add: advance_html) (meson suffix_drop suffix_order.trans)
    qed
  qed
next
  assume "r \<noteq> None"
  with assms obtain n t where so: "startTagOpen (o_unicode opts) (p_html st) = Some (n, t)"
    by (cases "startTagOpen (o_unicode opts) (p_html st)") (auto simp add: parseStartTag_def)
  obtain st1 attrs e where pa: "parse_attrs (advance n st) [] = (st1, attrs, e)"
    by (cases "parse_attrs (advance n st) []") auto
  from parse_attrs_suffix [OF pa] have s1: "suffix (p_html st1) (drop n (p_html st))"
    by (simp add: advance_html)
  from assms so pa have "suffix (p_html st') (p_html st1)"
    by (cases e) (auto simp add: parseStartTag_def Let_def advance_html suffix_drop)
  with s1 have "suffix (p_html st') (drop n (p_html st))"
    by (rule suffix_order.trans [rotated])
  with startTagOpen_match [OF so] show "length (p_html st') < length (p_html st)"
    by (simp add: suffix_shorter)
qed

subsection \<open>The cases at a \<open><\<close>\<close>

lemma on_comment_flow:
  "on_comment opts st = Some r \<Longrightarrow>
   (\<exists>st1. r = Continue st1 \<and> length (p_html st1) < length (p_html st)) \<or>
   (r = Throw TypeError \<and> o_shouldKeepComment opts \<and> \<not> o_comment opts)"
  by (cases "p_html st")
     (auto simp add: on_comment_def comment_def Let_def advance_html call_html
        split: if_splits option.splits)

lemma on_conditionalComment_flow:
  "on_conditionalComment st = Some r \<Longrightarrow>
   \<exists>st1. r = Continue st1 \<and> length (p_html st1) < length (p_html st)"
  by (cases "p_html st")
     (auto simp add: on_conditionalComment_def conditionalComment_def advance_html
        split: if_splits option.splits)

lemma on_doctype_flow:
  "on_doctype st = Some r \<Longrightarrow>
   \<exists>st1. r = Continue st1 \<and> length (p_html st1) < length (p_html st)"
  by (cases "p_html st")
     (auto simp add: on_doctype_def doctype_def advance_html split: if_splits option.splits)

lemma on_endTag_flow:
  "on_endTag opts st = Some r \<Longrightarrow>
   \<exists>st1. r = Continue st1 \<and> length (p_html st1) < length (p_html st)"
  by (cases "p_html st")
     (auto simp add: on_endTag_def endTag_def Let_def advance_html parseEndTag_html
        split: if_splits option.splits)

lemma on_startTag_flow:
  "(\<exists>st1. on_startTag opts st = Continue st1 \<and> length (p_html st1) < length (p_html st)) \<or>
   (\<exists>st1. on_startTag opts st = Fall st1 \<and> suffix (p_html st1) (p_html st))"
proof -
  obtain st1 r where ps: "parseStartTag opts st = (st1, r)"
    by (cases "parseStartTag opts st")
  show ?thesis
  proof (cases r)
    case None
    with ps parseStartTag_html(1) [OF ps] show ?thesis
      by (simp add: on_startTag_def)
  next
    case (Some m)
    with parseStartTag_html(2) [OF ps] have lt: "length (p_html st1) < length (p_html st)"
      by simp
    have "length (p_html (if shouldIgnoreFirstNewline (sm_tagName m)
                               (p_html (handleStartTag opts m st1))
                          then advance 1 (handleStartTag opts m st1)
                          else handleStartTag opts m st1)) \<le> length (p_html st1)"
      by (simp add: advance_html handleStartTag_html)
    with lt ps Some show ?thesis
      by (simp add: on_startTag_def Let_def)
  qed
qed

lemma at_tag_open_flow:
  "(\<exists>st1. at_tag_open opts st = Continue st1 \<and> length (p_html st1) < length (p_html st)) \<or>
   (\<exists>st1. at_tag_open opts st = Fall st1 \<and> suffix (p_html st1) (p_html st)) \<or>
   (at_tag_open opts st = Throw TypeError \<and> o_shouldKeepComment opts \<and> \<not> o_comment opts)"
proof (cases "on_comment opts st")
  case (Some r)
  with on_comment_flow [OF Some] show ?thesis
    by (auto simp add: at_tag_open_def)
next
  case c: None
  show ?thesis
  proof (cases "on_conditionalComment st")
    case (Some r)
    with c on_conditionalComment_flow [OF Some] show ?thesis
      by (auto simp add: at_tag_open_def)
  next
    case cc: None
    show ?thesis
    proof (cases "on_doctype st")
      case (Some r)
      with c cc on_doctype_flow [OF Some] show ?thesis
        by (auto simp add: at_tag_open_def)
    next
      case d: None
      show ?thesis
      proof (cases "on_endTag opts st")
        case (Some r)
        with c cc d on_endTag_flow [OF Some] show ?thesis
          by (auto simp add: at_tag_open_def)
      next
        case None
        with c cc d on_startTag_flow [of opts st] show ?thesis
          by (auto simp add: at_tag_open_def)
      qed
    qed
  qed
qed

subsection \<open>Text, and the content of a plain text element\<close>

lemma on_text_html: "suffix (p_html (on_text opts textEnd st)) (p_html st)"
  by (simp add: on_text_def Let_def call_html advance_html suffix_drop)

lemma on_plaintext_html: "suffix (p_html (on_plaintext opts t st)) (p_html st)"
  by (simp add: on_plaintext_def Let_def parseEndTag_html suffix_drop split: option.splits)

subsection \<open>A turn\<close>

lemma turn_flow:
  "(\<exists>st1. turn opts st = Continue st1 \<and> length (p_html st1) < length (p_html st)) \<or>
   (\<exists>st1. turn opts st = Fall st1 \<and> suffix (p_html st1) (p_html st)) \<or>
   (turn opts st = Throw TypeError \<and> o_shouldKeepComment opts \<and> \<not> o_comment opts)"
proof (cases "case p_lastTag st of None \<Rightarrow> None
              | Some t \<Rightarrow> if t \<noteq> [] \<and> isPlainTextElement t then Some t else None")
  case (Some t)
  then have "turn opts st = Fall (on_plaintext opts t st)"
    by (simp add: turn_def)
  with on_plaintext_html [of opts t st] show ?thesis
    by simp
next
  case None
  show ?thesis
  proof (cases "find_sub ''<'' (p_html st) = Some 0")
    case False
    with None have "turn opts st = Fall (on_text opts (find_sub ''<'' (p_html st)) st)"
      by (simp add: turn_def)
    with on_text_html [of opts _ st] show ?thesis
      by simp
  next
    case True
    from at_tag_open_flow [of opts st] consider
      (continue) st1 where "at_tag_open opts st = Continue st1"
        "length (p_html st1) < length (p_html st)"
      | (fall) st1 where "at_tag_open opts st = Fall st1" "suffix (p_html st1) (p_html st)"
      | (throw) "at_tag_open opts st = Throw TypeError" "o_shouldKeepComment opts"
          "\<not> o_comment opts"
      by blast
    then show ?thesis
    proof cases
      case continue
      with None True show ?thesis
        by (simp add: turn_def)
    next
      case fall
      with None True have "turn opts st = Fall (on_text opts (Some 0) st1)"
        by (simp add: turn_def)
      moreover from on_text_html [of opts "Some 0" st1] fall(2)
      have "suffix (p_html (on_text opts (Some 0) st1)) (p_html st)"
        by (rule suffix_order.trans)
      ultimately show ?thesis
        by simp
    next
      case throw
      with None True show ?thesis
        by (simp add: turn_def)
    qed
  qed
qed

lemma suffix_same_or_shorter: "suffix a b \<Longrightarrow> a = b \<or> length a < length b"
  by (metis suffix_length_le suffix_order.order_iff_strict le_neq_implies_less
      suffix_order.antisym_conv Sublist.suffix_def append_eq_append_conv append_Nil)

subsection \<open>The loop\<close>

lemma parse_loop_ends:
  assumes "o_shouldKeepComment opts \<longrightarrow> o_comment opts"
  shows "length (p_html st) \<le> fuel \<Longrightarrow> \<exists>st'. parse_loop opts fuel st = Parsed st'"
proof (induction fuel arbitrary: st)
  case 0
  then show ?case
    by simp
next
  case (Suc n)
  show ?case
  proof (cases "p_html st = []")
    case True
    then show ?thesis
      by simp
  next
    case False
    from turn_flow [of opts st] assms consider
      (continue) st1 where "turn opts st = Continue st1"
        "length (p_html st1) < length (p_html st)"
      | (fall) st1 where "turn opts st = Fall st1" "suffix (p_html st1) (p_html st)"
      by blast
    then show ?thesis
    proof cases
      case continue
      with Suc.prems have "length (p_html st1) \<le> n"
        by simp
      from Suc.IH [OF this] continue(1) False show ?thesis
        by simp
    next
      case fall
      show ?thesis
      proof (cases "p_html st1 = p_html st")
        case True
        with fall(1) False show ?thesis
          by simp
      next
        case ne: False
        with suffix_same_or_shorter [OF fall(2)] Suc.prems have "length (p_html st1) \<le> n"
          by simp
        from Suc.IH [OF this] fall(1) False ne show ?thesis
          by simp
      qed
    qed
  qed
qed

text \<open>
  Fuel beyond the length of \<open>html\<close> changes nothing.
\<close>

lemma parse_loop_fuel:
  "length (p_html st) \<le> n \<Longrightarrow> length (p_html st) \<le> m \<Longrightarrow>
   parse_loop opts n st = parse_loop opts m st"
proof (induction n arbitrary: m st)
  case 0
  then show ?case
    by (cases m) simp_all
next
  case (Suc n)
  show ?case
  proof (cases "p_html st = []")
    case True
    then show ?thesis
      by (cases m) simp_all
  next
    case False
    with Suc.prems obtain k where m: "m = Suc k"
      by (cases m) auto
    from turn_flow [of opts st] consider
      (continue) st1 where "turn opts st = Continue st1"
        "length (p_html st1) < length (p_html st)"
      | (fall) st1 where "turn opts st = Fall st1" "suffix (p_html st1) (p_html st)"
      | (throw) "turn opts st = Throw TypeError"
      by blast
    then show ?thesis
    proof cases
      case continue
      with Suc.prems m have "length (p_html st1) \<le> n" "length (p_html st1) \<le> k"
        by simp_all
      from Suc.IH [OF this] continue(1) False m show ?thesis
        by simp
    next
      case fall
      show ?thesis
      proof (cases "p_html st1 = p_html st")
        case True
        with fall(1) False m show ?thesis
          by simp
      next
        case ne: False
        with suffix_same_or_shorter [OF fall(2)] Suc.prems m
        have "length (p_html st1) \<le> n" "length (p_html st1) \<le> k"
          by simp_all
        from Suc.IH [OF this] fall(1) False ne m show ?thesis
          by simp
      qed
    next
      case throw
      with False m show ?thesis
        by simp
    qed
  qed
qed

lemma turn_progress_or_exit:
  assumes "o_shouldKeepComment opts \<longrightarrow> o_comment opts" and "p_html st \<noteq> []"
  shows "\<exists>st1.
     ((turn opts st = Continue st1 \<or> turn opts st = Fall st1)
        \<and> length (p_html st1) < length (p_html st)
        \<and> (\<forall>n. parse_loop opts (Suc n) st = parse_loop opts n st1))
     \<or> (turn opts st = Fall st1 \<and> p_html st1 = p_html st
        \<and> (\<exists>w. (w = [] \<or> (\<exists>msg i. w = [CallWarn msg i None]))
             \<and> (\<forall>n. parse_loop opts (Suc n) st =
                  Parsed (st1\<lparr>p_calls := p_calls st1
                     @ (if o_chars opts then [CallChars (p_html st) None] else []) @ w\<rparr>))))"
proof -
  from turn_flow [of opts st] assms(1) consider
    (continue) st1 where "turn opts st = Continue st1"
      "length (p_html st1) < length (p_html st)"
    | (fall) st1 where "turn opts st = Fall st1" "suffix (p_html st1) (p_html st)"
    by blast
  then show ?thesis
  proof cases
    case continue
    with assms(2) have "\<forall>n. parse_loop opts (Suc n) st = parse_loop opts n st1"
      by simp
    with continue show ?thesis
      by blast
  next
    case fall
    show ?thesis
    proof (cases "p_html st1 = p_html st")
      case False
      with suffix_same_or_shorter [OF fall(2)]
      have lt: "length (p_html st1) < length (p_html st)"
        by simp
      from False fall(1) assms(2) have "\<forall>n. parse_loop opts (Suc n) st = parse_loop opts n st1"
        by simp
      with fall(1) lt show ?thesis
        by blast
    next
      case True
      define w where "w =
        (if \<not> o_production opts \<and> p_stack st1 = [] \<and> o_warn opts
         then [CallWarn (''Mal-formatted tag at end of template: '' @ [CHR 0x22] @ p_html st1
                          @ [CHR 0x22]) (p_index st1 + length (p_html st1)) None]
         else [])"
      have w: "w = [] \<or> (\<exists>msg i. w = [CallWarn msg i None])"
        by (simp add: w_def)
      have "no_progress opts st1 =
        st1\<lparr>p_calls := p_calls st1
               @ (if o_chars opts then [CallChars (p_html st) None] else []) @ w\<rparr>"
        by (simp add: no_progress_def w_def True)
      with True fall(1) assms(2)
      have "\<forall>n. parse_loop opts (Suc n) st =
              Parsed (st1\<lparr>p_calls := p_calls st1
                 @ (if o_chars opts then [CallChars (p_html st) None] else []) @ w\<rparr>)"
        by simp
      with w True fall(1) show ?thesis
        by blast
    qed
  qed
qed

subsection \<open>Termination of \<open>parseHTML\<close>\<close>

text \<open>
  Claim C9. \<open>parseHTML\<close> ends on every string and does not throw, for options that
  supply \<open>comment\<close> whenever \<open>shouldKeepComment\<close> is set (the one callback that the
  code calls without testing that it is there): as many turns of the main loop as
  \<open>html\<close> has characters are enough, and more turns give the same calls. For every
  state with \<open>html\<close> not empty, one turn either leaves \<open>html\<close> shorter and the loop goes
  on, or leaves \<open>html\<close> as it was at the start of the turn; in that case the loop
  exits, and before it does, the whole of \<open>html\<close> is passed to \<open>chars\<close> when that
  callback is supplied, followed by at most one warning.
\<close>

theorem parseHTML_terminates:
  assumes "o_shouldKeepComment opts \<longrightarrow> o_comment opts"
  shows "(\<exists>calls. \<forall>fuel\<ge>length html. parseHTML opts fuel html = Parsed calls) \<and>
    (p_html st \<noteq> [] \<longrightarrow>
      (\<exists>st1.
        ((turn opts st = Continue st1 \<or> turn opts st = Fall st1)
           \<and> length (p_html st1) < length (p_html st)
           \<and> (\<forall>n. parse_loop opts (Suc n) st = parse_loop opts n st1))
        \<or> (turn opts st = Fall st1 \<and> p_html st1 = p_html st
           \<and> (\<exists>w. (w = [] \<or> (\<exists>msg i. w = [CallWarn msg i None]))
                \<and> (\<forall>n. parse_loop opts (Suc n) st =
                     Parsed (st1\<lparr>p_calls := p_calls st1
                        @ (if o_chars opts then [CallChars (p_html st) None] else [])
                        @ w\<rparr>))))))"
proof (intro conjI impI)
  have len: "length (p_html (first_state html)) = length html"
    by (simp add: first_state_def)
  from parse_loop_ends [OF assms, of "first_state html" "length html"] len
  obtain st' where st': "parse_loop opts (length html) (first_state html) = Parsed st'"
    by auto
  have "parseHTML opts fuel html = Parsed (p_calls (parseEndTag opts None None None st'))"
    if "length html \<le> fuel" for fuel
    using parse_loop_fuel [of "first_state html" fuel "length html" opts] that len st'
    by (simp add: parseHTML_def)
  then show "\<exists>calls. \<forall>fuel\<ge>length html. parseHTML opts fuel html = Parsed calls"
    by blast
next
  assume "p_html st \<noteq> []"
  with assms show "\<exists>st1.
        ((turn opts st = Continue st1 \<or> turn opts st = Fall st1)
           \<and> length (p_html st1) < length (p_html st)
           \<and> (\<forall>n. parse_loop opts (Suc n) st = parse_loop opts n st1))
        \<or> (turn opts st = Fall st1 \<and> p_html st1 = p_html st
           \<and> (\<exists>w. (w = [] \<or> (\<exists>msg i. w = [CallWarn msg i None]))
                \<and> (\<forall>n. parse_loop opts (Suc n) st =
                     Parsed (st1\<lparr>p_calls := p_calls st1
                        @ (if o_chars opts then [CallChars (p_html st) None] else [])
                        @ w\<rparr>))))"
    by (rule turn_progress_or_exit)
qed

theorem parseHTML_terminates_witness:
  "o_comment sample_options \<and>
   parseHTML sample_options 5 ''<p>a<'' =
     Parsed [CallStart ''p'' [] False 0 3, CallChars ''a'' (Some (3, 4)), CallChars ''<'' None,
             CallWarn ''tag <p> has no matching end tag.'' 0 (Some 3), CallEnd ''p'' 4 4] \<and>
   parseHTML sample_options 1000 ''<p>a<'' =
     Parsed [CallStart ''p'' [] False 0 3, CallChars ''a'' (Some (3, 4)), CallChars ''<'' None,
             CallWarn ''tag <p> has no matching end tag.'' 0 (Some 3), CallEnd ''p'' 4 4] \<and>
   p_html (first_state ''<'') = ''<'' \<and>
   turn sample_options (first_state ''<'') = Fall (first_state ''<'') \<and>
   parse_loop sample_options (Suc 0) (first_state ''<'') =
     Parsed ((first_state ''<'')
       \<lparr>p_calls := [CallChars ''<'' None,
                    CallWarn (''Mal-formatted tag at end of template: '' @ [CHR 0x22] @ ''<''
                               @ [CHR 0x22]) 1 None]\<rparr>)"
proof -
  have keep: "o_shouldKeepComment sample_options \<longrightarrow> o_comment sample_options"
    and supplied: "o_comment sample_options"
    by (simp_all add: sample_options_def)
  have five: "parseHTML sample_options 5 ''<p>a<'' =
     Parsed [CallStart ''p'' [] False 0 3, CallChars ''a'' (Some (3, 4)), CallChars ''<'' None,
             CallWarn ''tag <p> has no matching end tag.'' 0 (Some 3), CallEnd ''p'' 4 4]"
    by code_simp
  have state: "p_html (first_state ''<'') = ''<''"
    by (simp add: first_state_def)
  have one: "turn sample_options (first_state ''<'') = Fall (first_state ''<'')"
    by code_simp
  have exit: "parse_loop sample_options (Suc 0) (first_state ''<'') =
     Parsed ((first_state ''<'')
       \<lparr>p_calls := [CallChars ''<'' None,
                    CallWarn (''Mal-formatted tag at end of template: '' @ [CHR 0x22] @ ''<''
                               @ [CHR 0x22]) 1 None]\<rparr>)"
    by code_simp
  from parseHTML_terminates [OF keep, of "''<p>a<''" "first_state ''<''"]
  obtain calls where "\<forall>fuel\<ge>length ''<p>a<''. parseHTML sample_options fuel ''<p>a<'' = Parsed calls"
    by blast
  then have "parseHTML sample_options 5 ''<p>a<'' = Parsed calls"
    and "parseHTML sample_options 1000 ''<p>a<'' = Parsed calls"
    by simp_all
  with five have "parseHTML sample_options 1000 ''<p>a<'' =
     Parsed [CallStart ''p'' [] False 0 3, CallChars ''a'' (Some (3, 4)), CallChars ''<'' None,
             CallWarn ''tag <p> has no matching end tag.'' 0 (Some 3), CallEnd ''p'' 4 4]"
    by simp
  with supplied five state one exit show ?thesis
    by (intro conjI)
qed
end
